theory Spec2Isabelle
  imports Main "HOL-Library.Word"
begin

section \<open>Exceptions and results\<close>

text \<open>
  Neither stage of \<^verbatim>\<open>mmocr_sam_inpainting_app.py\<close> catches anything, so a run
  either returns or leaves with the Python exception raised on the way. A run is a value
  of \<open>error + 'a\<close>. \<open>ModelError\<close> stands for an exception raised inside one of the
  pretrained models or their helpers. \<open>Unmodelled\<close> marks a run that leaves the part
  of Python, numpy and Pillow embedded here (names, operators and calls inside the
  evaluated text, escapes in string literals, float dictionary keys, masks that are not
  a rectangular grid of booleans): nothing is said about such runs.
\<close>

datatype error =
    SyntaxError | TypeError | KeyError | IndexError | ValueError
  | Cv2Error | ModelError | Unmodelled

definition bind_err :: "error + 'a \<Rightarrow> ('a \<Rightarrow> error + 'b) \<Rightarrow> error + 'b" where
  "bind_err r f = (case r of Inl e \<Rightarrow> Inl e | Inr v \<Rightarrow> f v)"

fun map_err :: "('a \<Rightarrow> error + 'b) \<Rightarrow> 'a list \<Rightarrow> error + 'b list" where
  "map_err f [] = Inr []"
| "map_err f (x # xs) =
     bind_err (f x) (\<lambda>y. bind_err (map_err f xs) (\<lambda>ys. Inr (y # ys)))"

section \<open>Python values and their text\<close>

text \<open>
  The values that travel between the two stages: \<^verbatim>\<open>None\<close>, booleans, integers,
  floats, strings, lists and dictionaries. Python floats are kept opaque (type \<open>'f\<close>):
  the program never computes with the polygon coordinates it carries, it only prints and
  reads them. A dictionary is the list of its key/value pairs in the order of the display
  it was read from; a later pair overrides an earlier pair with an equal key.
\<close>

datatype 'f pyval =
    PNone | PBool bool | PInt int | PFloat 'f | PStr string
  | PList "'f pyval list" | PDict "('f pyval \<times> 'f pyval) list"

text \<open>
  What the interpreter does with floats: \<open>float_repr x\<close> is \<^verbatim>\<open>repr(x)\<close> and
  \<open>float_of_literal tok\<close> is the value of the float literal \<open>tok\<close> (with an optional
  minus sign in front).
\<close>

record 'f pyfloat =
  float_repr :: "'f \<Rightarrow> string"
  float_of_literal :: "string \<Rightarrow> 'f option"

subsection \<open>Characters and decimal numbers\<close>

definition is_digit :: "char \<Rightarrow> bool" where
  "is_digit c = (c \<in> set ''0123456789'')"

definition is_alpha :: "char \<Rightarrow> bool" where
  "is_alpha c = (c \<in> set ''abcdefghijklmnopqrstuvwxyzABCDEFGHIJKLMNOPQRSTUVWXYZ_'')"

definition is_num_char :: "char \<Rightarrow> bool" where
  "is_num_char c = (is_digit c \<or> c \<in> set ''.eE+-'')"

text \<open>Printable ASCII other than the backslash.\<close>

definition is_plain_char :: "char \<Rightarrow> bool" where
  "is_plain_char c = (32 \<le> (of_char c :: nat) \<and> (of_char c :: nat) < 127 \<and> c \<noteq> CHR 0x5C)"

definition digit_of :: "char \<Rightarrow> nat" where
  "digit_of c = of_char c - 48"

definition digit_char :: "nat \<Rightarrow> char" where
  "digit_char d = ''0123456789'' ! d"

definition nat_of_digits :: "string \<Rightarrow> nat" where
  "nat_of_digits ds = foldl (\<lambda>a c. 10 * a + digit_of c) 0 ds"

text \<open>\<^verbatim>\<open>str(n)\<close> and \<^verbatim>\<open>f'{n}'\<close> for an integer \<open>n \<ge> 0\<close>.\<close>

fun str_nat :: "nat \<Rightarrow> string" where
  "str_nat n = (if n < 10 then [digit_char n] else str_nat (n div 10) @ [digit_char (n mod 10)])"

declare str_nat.simps [simp del]

definition skip_ws :: "string \<Rightarrow> string" where
  "skip_ws s = dropWhile (\<lambda>c. c = CHR '' '') s"

subsection \<open>\<^verbatim>\<open>str\<close> of the mask table\<close>

text \<open>
  One entry of \<^verbatim>\<open>outputs\<close> is \<^verbatim>\<open>dict(mask=mask.cpu().numpy().tolist(),
  polygon=polygon.tolist())\<close>: the mask is a nested list of shape \<open>1 \<times> H \<times> W\<close> of
  booleans, the polygon a list of \<open>[x, y]\<close> pairs of floats. \<^verbatim>\<open>outputs\<close> maps the
  loop index to its entry, in insertion order.
\<close>

record 'f entry =
  entry_mask :: "bool list list list"
  entry_polygon :: "'f list list"

type_synonym 'f mask_table = "(nat \<times> 'f entry) list"

fun join :: "string \<Rightarrow> string list \<Rightarrow> string" where
  "join sep [] = []"
| "join sep [x] = x"
| "join sep (x # y # ys) = x @ sep @ join sep (y # ys)"

definition str_bool :: "bool \<Rightarrow> string" where
  "str_bool b = (if b then ''True'' else ''False'')"

definition str_list :: "('a \<Rightarrow> string) \<Rightarrow> 'a list \<Rightarrow> string" where
  "str_list f xs = ''['' @ join '', '' (map f xs) @ '']''"

definition str_entry :: "'f pyfloat \<Rightarrow> 'f entry \<Rightarrow> string" where
  "str_entry py e =
     ''{'mask': '' @ str_list (str_list (str_list str_bool)) (entry_mask e) @
     '', 'polygon': '' @ str_list (str_list (float_repr py)) (entry_polygon e) @ ''}''"

text \<open>
  The table reaches the \<^verbatim>\<open>Mask Results\<close> text box as the dictionary itself; the box
  shows \<^verbatim>\<open>str\<close> of it.
\<close>

definition str_table :: "'f pyfloat \<Rightarrow> 'f mask_table \<Rightarrow> string" where
  "str_table py t =
     ''{'' @ join '', '' (map (\<lambda>(k, e). str_nat k @ '': '' @ str_entry py e) t) @ ''}''"

text \<open>The same table as a Python value.\<close>

definition entry_val :: "'f entry \<Rightarrow> 'f pyval" where
  "entry_val e =
     PDict [(PStr ''mask'', PList (map (\<lambda>g. PList (map (\<lambda>r. PList (map PBool r)) g)) (entry_mask e))),
            (PStr ''polygon'', PList (map (\<lambda>p. PList (map PFloat p)) (entry_polygon e)))]"

definition table_val :: "'f mask_table \<Rightarrow> 'f pyval" where
  "table_val t = PDict (map (\<lambda>(k, e). (PInt (int k), entry_val e)) t)"

subsection \<open>\<^verbatim>\<open>eval\<close> of a display\<close>

text \<open>
  \<^verbatim>\<open>eval(mask_results)\<close> evaluates any Python expression. Embedded here are the
  displays: list and dictionary displays over \<^verbatim>\<open>None\<close>, \<^verbatim>\<open>True\<close>, \<^verbatim>\<open>False\<close>,
  decimal integers, float literals and string literals without escapes, with blanks
  between the tokens, and a display followed by subscripts \<^verbatim>\<open>[k]\<close> with an integer
  or string literal \<open>k\<close>. A text that ends inside a display or inside a string, or
  that is blank, raises \<open>SyntaxError\<close>. Every other text the reader does not accept
  is \<open>Unmodelled\<close>. The interpreter's limits on the nesting of displays and on the
  number of digits of an integer literal are not part of the embedding.
\<close>

definition is_int_literal :: "string \<Rightarrow> bool" where
  "is_int_literal ds = (ds \<noteq> [] \<and> list_all is_digit ds \<and> (length ds = 1 \<or> hd ds \<noteq> CHR ''0''))"

definition is_exponent :: "string \<Rightarrow> bool" where
  "is_exponent ex =
     (case ex of [] \<Rightarrow> False
      | c # ds \<Rightarrow>
         (if ds \<noteq> [] \<and> (hd ds = CHR ''+'' \<or> hd ds = CHR ''-'')
          then tl ds \<noteq> [] \<and> list_all is_digit (tl ds)
          else ds \<noteq> [] \<and> list_all is_digit ds))"

definition is_float_literal :: "string \<Rightarrow> bool" where
  "is_float_literal tok =
     (let body = (if tok \<noteq> [] \<and> hd tok = CHR ''-'' then tl tok else tok);
          mant = takeWhile (\<lambda>c. c \<noteq> CHR ''e'' \<and> c \<noteq> CHR ''E'') body;
          ex = dropWhile (\<lambda>c. c \<noteq> CHR ''e'' \<and> c \<noteq> CHR ''E'') body;
          ip = takeWhile is_digit mant;
          fr = dropWhile is_digit mant
      in (if fr = [] then ip \<noteq> [] \<and> is_exponent ex
          else hd fr = CHR ''.'' \<and> list_all is_digit (tl fr) \<and> (ip \<noteq> [] \<or> tl fr \<noteq> [])
               \<and> (ex = [] \<or> is_exponent ex)))"

definition number :: "'f pyfloat \<Rightarrow> string \<Rightarrow> error + 'f pyval" where
  "number py tok =
     (if is_int_literal tok then Inr (PInt (int (nat_of_digits tok)))
      else if tok \<noteq> [] \<and> hd tok = CHR ''-'' \<and> is_int_literal (tl tok)
        then Inr (PInt (- int (nat_of_digits (tl tok))))
      else if is_float_literal tok
        then (case float_of_literal py tok of Some f \<Rightarrow> Inr (PFloat f) | None \<Rightarrow> Inl Unmodelled)
      else Inl Unmodelled)"

definition keyword :: "string \<Rightarrow> string \<Rightarrow> string option" where
  "keyword kw s =
     (if take (length kw) s = kw \<and>
         (case drop (length kw) s of [] \<Rightarrow> True | c # _ \<Rightarrow> \<not> is_alpha c \<and> \<not> is_digit c)
      then Some (drop (length kw) s) else None)"

definition atom :: "'f pyfloat \<Rightarrow> string \<Rightarrow> error + ('f pyval \<times> string)" where
  "atom py s =
     (case s of [] \<Rightarrow> Inl SyntaxError
      | c # r \<Rightarrow>
         if c = CHR 0x27 \<or> c = CHR 0x22 then
           (let body = takeWhile (\<lambda>d. d \<noteq> c) r; rest = dropWhile (\<lambda>d. d \<noteq> c) r
            in if \<not> list_all is_plain_char body then Inl Unmodelled
               else if rest = [] then Inl SyntaxError
               else Inr (PStr body, tl rest))
         else if is_digit c \<or> c = CHR ''-'' \<or> c = CHR ''.'' then
           bind_err (number py (takeWhile is_num_char s)) (\<lambda>v. Inr (v, dropWhile is_num_char s))
         else (case keyword ''True'' s of Some r' \<Rightarrow> Inr (PBool True, r') | None \<Rightarrow>
              (case keyword ''False'' s of Some r' \<Rightarrow> Inr (PBool False, r') | None \<Rightarrow>
              (case keyword ''None'' s of Some r' \<Rightarrow> Inr (PNone, r') | None \<Rightarrow>
               Inl Unmodelled))))"

text \<open>
  The reader descends into nested displays; the first argument after \<open>py\<close> bounds the
  depth of the descent. \<open>py_eval\<close> sets it from the length of the text, which is
  enough for every text that \<^verbatim>\<open>str\<close> writes (\<open>py_eval_str_table\<close> below).
\<close>

fun parse_value :: "'f pyfloat \<Rightarrow> nat \<Rightarrow> string \<Rightarrow> error + ('f pyval \<times> string)"
and parse_elems :: "'f pyfloat \<Rightarrow> nat \<Rightarrow> string \<Rightarrow> error + ('f pyval list \<times> string)"
and parse_pairs :: "'f pyfloat \<Rightarrow> nat \<Rightarrow> string \<Rightarrow> error + (('f pyval \<times> 'f pyval) list \<times> string)"
where
  "parse_value py 0 s = Inl Unmodelled"
| "parse_value py (Suc n) s =
     (case skip_ws s of [] \<Rightarrow> Inl SyntaxError
      | c # r \<Rightarrow>
         if c = CHR ''['' then
           (case skip_ws r of [] \<Rightarrow> Inl SyntaxError
            | d # r' \<Rightarrow>
               if d = CHR '']'' then Inr (PList [], r')
               else bind_err (parse_elems py n r) (\<lambda>(vs, r''). Inr (PList vs, r'')))
         else if c = CHR ''{'' then
           (case skip_ws r of [] \<Rightarrow> Inl SyntaxError
            | d # r' \<Rightarrow>
               if d = CHR ''}'' then Inr (PDict [], r')
               else bind_err (parse_pairs py n r) (\<lambda>(kvs, r''). Inr (PDict kvs, r'')))
         else atom py (c # r))"
| "parse_elems py 0 s = Inl Unmodelled"
| "parse_elems py (Suc n) s =
     bind_err (parse_value py n s) (\<lambda>(v, r).
       case skip_ws r of [] \<Rightarrow> Inl SyntaxError
       | c # r' \<Rightarrow>
          if c = CHR '','' then bind_err (parse_elems py n r') (\<lambda>(vs, r''). Inr (v # vs, r''))
          else if c = CHR '']'' then Inr ([v], r')
          else Inl Unmodelled)"
| "parse_pairs py 0 s = Inl Unmodelled"
| "parse_pairs py (Suc n) s =
     bind_err (parse_value py n s) (\<lambda>(k, r).
       case skip_ws r of [] \<Rightarrow> Inl SyntaxError
       | c # r' \<Rightarrow>
          if c \<noteq> CHR '':'' then Inl Unmodelled
          else bind_err (parse_value py n r') (\<lambda>(v, r'').
            case skip_ws r'' of [] \<Rightarrow> Inl SyntaxError
            | d # r3 \<Rightarrow>
               if d = CHR '','' then bind_err (parse_pairs py n r3) (\<lambda>(kvs, r4). Inr ((k, v) # kvs, r4))
               else if d = CHR ''}'' then Inr ([(k, v)], r3)
               else Inl Unmodelled))"

text \<open>Subscripts that follow the display, read to the end of the text one by one.\<close>

fun parse_subscripts :: "'f pyfloat \<Rightarrow> nat \<Rightarrow> string \<Rightarrow> error + ('f pyval list \<times> string)" where
  "parse_subscripts py 0 s = Inl Unmodelled"
| "parse_subscripts py (Suc n) s =
     (case skip_ws s of
        [] \<Rightarrow> Inr ([], [])
      | c # r \<Rightarrow>
          if c \<noteq> CHR ''['' then Inr ([], c # r)
          else bind_err (parse_value py (Suc (length r)) r) (\<lambda>(k, r').
            case skip_ws r' of [] \<Rightarrow> Inl SyntaxError
            | d # r'' \<Rightarrow>
               if d \<noteq> CHR '']'' then Inl Unmodelled
               else bind_err (parse_subscripts py n r'') (\<lambda>(ks, rest). Inr (k # ks, rest))))"

text \<open>
  Building a dictionary hashes its keys: a list or a dictionary as a key raises
  \<open>TypeError\<close>. Float keys are left out of the embedding.
\<close>

fun float_key :: "'f pyval \<Rightarrow> bool" where
  "float_key (PList vs) = list_ex float_key vs"
| "float_key (PDict kvs) =
     list_ex (\<lambda>(k, v). (case k of PFloat _ \<Rightarrow> True | _ \<Rightarrow> False) \<or> float_key k \<or> float_key v) kvs"
| "float_key _ = False"

fun unhashable_key :: "'f pyval \<Rightarrow> bool" where
  "unhashable_key (PList vs) = list_ex unhashable_key vs"
| "unhashable_key (PDict kvs) =
     list_ex (\<lambda>(k, v). (case k of PList _ \<Rightarrow> True | PDict _ \<Rightarrow> True | _ \<Rightarrow> False)
                        \<or> unhashable_key k \<or> unhashable_key v) kvs"
| "unhashable_key _ = False"

subsection \<open>\<^verbatim>\<open>int\<close> of a string and subscripts\<close>

text \<open>
  \<^verbatim>\<open>int(index)\<close>: blanks around an optional sign and decimal digits; anything else
  raises \<open>ValueError\<close>. Underscores, characters outside printable ASCII and texts
  beyond the interpreter's digit limit are left out of the embedding.
\<close>

definition py_int :: "string \<Rightarrow> error + int" where
  "py_int s =
     (if \<not> list_all (\<lambda>c. is_plain_char c \<and> c \<noteq> CHR ''_'') s \<or> length s > 4300 then Inl Unmodelled
      else
        (let t = rev (skip_ws (rev (skip_ws s)));
             ds = (if t \<noteq> [] \<and> (hd t = CHR ''+'' \<or> hd t = CHR ''-'') then tl t else t)
         in if ds = [] \<or> \<not> list_all is_digit ds then Inl ValueError
            else if hd t = CHR ''-'' then Inr (- int (nat_of_digits ds))
            else Inr (int (nat_of_digits ds))))"

text \<open>Keys compare as Python compares them: \<^verbatim>\<open>True == 1\<close> and \<^verbatim>\<open>False == 0\<close>.\<close>

definition num_of :: "'f pyval \<Rightarrow> int option" where
  "num_of v = (case v of PBool b \<Rightarrow> Some (if b then 1 else 0) | PInt i \<Rightarrow> Some i | _ \<Rightarrow> None)"

definition key_eq :: "'f pyval \<Rightarrow> 'f pyval \<Rightarrow> bool" where
  "key_eq a b =
     (case (num_of a, num_of b) of
        (Some x, Some y) \<Rightarrow> x = y
      | (None, None) \<Rightarrow> a = b
      | _ \<Rightarrow> False)"

text \<open>
  \<^verbatim>\<open>v[k]\<close> for an integer or string \<open>k\<close>: a dictionary looks the key up
  (\<open>KeyError\<close>), a list or a string takes an integer position, counted from the end
  when negative (\<open>IndexError\<close>), everything else is \<open>TypeError\<close>.
\<close>

definition getitem :: "'f pyval \<Rightarrow> 'f pyval \<Rightarrow> error + 'f pyval" where
  "getitem v k =
     (case v of
        PDict kvs \<Rightarrow>
          (case filter (\<lambda>(k', _). key_eq k' k) kvs of
             [] \<Rightarrow> Inl KeyError
           | p # ps \<Rightarrow> Inr (snd (last (p # ps))))
      | PList vs \<Rightarrow>
          (case k of
             PInt i \<Rightarrow>
               (let n = int (length vs); j = (if i < 0 then n + i else i)
                in if 0 \<le> j \<and> j < n then Inr (vs ! nat j) else Inl IndexError)
           | _ \<Rightarrow> Inl TypeError)
      | PStr s \<Rightarrow>
          (case k of
             PInt i \<Rightarrow>
               (let n = int (length s); j = (if i < 0 then n + i else i)
                in if 0 \<le> j \<and> j < n then Inr (PStr [s ! nat j]) else Inl IndexError)
           | _ \<Rightarrow> Inl TypeError)
      | _ \<Rightarrow> Inl TypeError)"

fun subscripts :: "'f pyval \<Rightarrow> 'f pyval list \<Rightarrow> error + 'f pyval" where
  "subscripts v [] = Inr v"
| "subscripts v (k # ks) = bind_err (getitem v k) (\<lambda>w. subscripts w ks)"

text \<open>
  The text is compiled before anything is evaluated, so a syntax error comes first;
  then the display is built, then the subscripts are applied from left to right.
\<close>

definition py_eval :: "'f pyfloat \<Rightarrow> string \<Rightarrow> error + 'f pyval" where
  "py_eval py s =
     bind_err (parse_value py (Suc (length s)) s) (\<lambda>(v, r).
     bind_err (parse_subscripts py (Suc (length r)) r) (\<lambda>(ks, rest).
       if rest \<noteq> [] \<or> float_key v \<or>
          \<not> list_all (\<lambda>k. case k of PInt _ \<Rightarrow> True | PStr _ \<Rightarrow> True | _ \<Rightarrow> False) ks
       then Inl Unmodelled
       else if unhashable_key v then Inl TypeError
       else subscripts v ks))"

section \<open>Images\<close>

text \<open>
  A numpy array of shape \<open>(H, W, 3)\<close> and dtype uint8, and a Pillow image of size
  \<open>(W, H)\<close>, are a shape with an index function: \<open>pix im y x c\<close> is
  \<^verbatim>\<open>im[y][x][c]\<close>. Only indices inside the shape carry meaning.
\<close>

type_synonym u8 = "8 word"

type_synonym raster = "nat \<Rightarrow> nat \<Rightarrow> nat \<Rightarrow> u8"

record image =
  height :: nat
  width :: nat
  pix :: raster

text \<open>
  \<^verbatim>\<open>cv2.cvtColor(img, cv2.COLOR_BGR2RGB)\<close> and \<^verbatim>\<open>cv2.COLOR_RGB2BGR\<close> are the same
  operation: the first and third channel change places. OpenCV refuses an empty array.
\<close>

definition cvtColor :: "image \<Rightarrow> error + image" where
  "cvtColor im =
     (if height im = 0 \<or> width im = 0 then Inl Cv2Error
      else Inr (im\<lparr>pix := \<lambda>y x c. pix im y x (2 - c)\<rparr>))"

text \<open>
  \<^verbatim>\<open>Image.resize(size)\<close> of Pillow, \<open>size = (w, h)\<close>. The result has the requested
  size. When the image already has that size Pillow returns a copy of it; otherwise the
  pixels come from the resampling filter, which is the library's and a parameter here.
\<close>

type_synonym resampler = "image \<Rightarrow> nat \<times> nat \<Rightarrow> raster"

definition resize :: "resampler \<Rightarrow> image \<Rightarrow> nat \<times> nat \<Rightarrow> image" where
  "resize rs im sz =
     (if (width im, height im) = sz then im
      else \<lparr>height = snd sz, width = fst sz, pix = rs im sz\<rparr>)"

text \<open>
  Element-wise \<^verbatim>\<open>*\<close> and \<^verbatim>\<open>+\<close> of two uint8 arrays of one shape: numpy computes
  in uint8 and wraps around.
\<close>

definition np_mul :: "image \<Rightarrow> image \<Rightarrow> image" where
  "np_mul a b = a\<lparr>pix := \<lambda>y x c. pix a y x c * pix b y x c\<rparr>"

definition np_add :: "image \<Rightarrow> image \<Rightarrow> image" where
  "np_add a b = a\<lparr>pix := \<lambda>y x c. pix a y x c + pix b y x c\<rparr>"

section \<open>Stage A: \<^verbatim>\<open>run_mmocr_sam\<close>\<close>

text \<open>
  The text spotter returns the recognised texts and the polygons, each polygon a flat
  list \<open>[x0, y0, x1, y1, ...]\<close>.
\<close>

record 'f spotted =
  rec_texts :: "string list"
  det_polygons :: "'f list list"

type_synonym 'f bbox = "'f \<times> 'f \<times> 'f \<times> 'f"

text \<open>
  What the loop draws on the current axes: \<^verbatim>\<open>show_mask\<close> with its random colour,
  \<^verbatim>\<open>plt.plot\<close> of the closed polygon and \<^verbatim>\<open>plt.text\<close> at the corner of the box.
\<close>

datatype 'f draw =
    ShowMask "bool list list list" "'f list"
  | Plot "'f list list"
  | Text 'f 'f string

text \<open>
  The collaborators of Stage A. \<open>sam_predictor env img boxes\<close> stands for lines 76 to
  85 (transforming the boxes, setting the image, predicting): one mask of shape
  \<open>1 \<times> H \<times> W\<close> per box is its contract, which the program does not check.
  \<open>np_random i\<close> are the three numbers \<^verbatim>\<open>np.random.random(3)\<close> returns at its
  \<open>i\<close>-th call. \<^verbatim>\<open>plt.figure()\<close> opens a canvas of the configured figure size
  \<open>figure_size = (w, h)\<close>, whatever the image; \<open>render env rgb draws\<close> are the canvas
  pixels read back after \<^verbatim>\<open>plt.imshow(rgb)\<close> and the drawing commands.
\<close>

record 'f env_a =
  mmocr_inferencer :: "image \<Rightarrow> error + 'f spotted"
  poly2bbox :: "'f list \<Rightarrow> error + 'f bbox"
  sam_predictor :: "image \<Rightarrow> 'f bbox list \<Rightarrow> error + bool list list list list"
  np_random :: "nat \<Rightarrow> 'f list"
  figure_size :: "nat \<times> nat"
  render :: "image \<Rightarrow> 'f draw list \<Rightarrow> raster"

text \<open>\<^verbatim>\<open>np.array(polygon).reshape(-1, 2)\<close>: an odd number of coordinates raises.\<close>

fun pairs :: "'a list \<Rightarrow> 'a list list" where
  "pairs (x # y # r) = [x, y] # pairs r"
| "pairs _ = []"

definition reshape2 :: "'a list \<Rightarrow> error + 'a list list" where
  "reshape2 p = (if even (length p) then Inr (pairs p) else Inl ValueError)"

text \<open>\<^verbatim>\<open>outputs[idx] = ...\<close> on an insertion-ordered dictionary.\<close>

fun dict_set :: "('k \<times> 'v) list \<Rightarrow> 'k \<Rightarrow> 'v \<Rightarrow> ('k \<times> 'v) list" where
  "dict_set [] k v = [(k, v)]"
| "dict_set ((k', v') # kvs) k v =
     (if k' = k then (k, v) # kvs else (k', v') # dict_set kvs k v)"

text \<open>
  Lines 95 to 113: the loop over
  \<^verbatim>\<open>enumerate(zip(masks, rec_texts, det_polygons, det_bboxes))\<close>, with the drawing
  commands, \<^verbatim>\<open>output_str\<close> and \<^verbatim>\<open>outputs\<close> as its state.
\<close>

fun draw_results ::
  "'f env_a \<Rightarrow> nat \<Rightarrow> (bool list list list \<times> string \<times> 'f list \<times> 'f bbox) list \<Rightarrow>
   'f draw list \<times> string \<times> 'f mask_table \<Rightarrow> error + ('f draw list \<times> string \<times> 'f mask_table)" where
  "draw_results env idx [] st = Inr st"
| "draw_results env idx ((m, rec_text, poly, bbox) # rest) (draws, output_str, outputs) =
     bind_err (reshape2 poly) (\<lambda>pts.
       let closed = pts @ take 1 pts;
           text_string = ''idx:'' @ str_nat idx @ '', '' @ rec_text
       in draw_results env (Suc idx) rest
            (draws @ [ShowMask m (np_random env idx), Plot closed,
                      Text (fst bbox) (fst (snd bbox)) text_string],
             output_str @ str_nat idx @ '':'' @ rec_text @ [CHR 0x0A],
             dict_set outputs idx \<lparr>entry_mask = m, entry_polygon = closed\<rparr>))"

definition run_mmocr_sam :: "'f env_a \<Rightarrow> image \<Rightarrow> error + (image \<times> string \<times> 'f mask_table)" where
  "run_mmocr_sam env img =
     bind_err (mmocr_inferencer env img) (\<lambda>result.
     bind_err (map_err (poly2bbox env) (det_polygons result)) (\<lambda>det_bboxes.
     bind_err (sam_predictor env img det_bboxes) (\<lambda>masks.
     bind_err (cvtColor img) (\<lambda>rgb.
     bind_err (draw_results env 0
                 (zip masks (zip (rec_texts result) (zip (det_polygons result) det_bboxes)))
                 ([], [], [])) (\<lambda>(draws, output_str, outputs).
     bind_err (cvtColor \<lparr>height = snd (figure_size env), width = fst (figure_size env),
                         pix = render env rgb draws\<rparr>) (\<lambda>preview.
     Inr (preview, output_str, outputs)))))))"

section \<open>Stage B: \<^verbatim>\<open>run_downstream\<close>\<close>

text \<open>
  The collaborators of Stage B: \<open>pipe env prompt steps seed control\<close> is the diffusion
  pipeline called with a prompt, a step count, a generator seeded with \<open>seed\<close> and a
  control image; it returns the pixels of an image of the control image's size (512 by
  512 here) or raises. \<open>resample\<close> is Pillow's filter.
\<close>

record env_b =
  pipe :: "string \<Rightarrow> nat \<Rightarrow> nat \<Rightarrow> image \<Rightarrow> error + raster"
  resample :: resampler

text \<open>
  Line 134, \<^verbatim>\<open>np.array(mask_results[int(index)]['mask'][0])\<close>, after line 133 has
  evaluated the text. The array must be a non-empty rectangular grid of booleans.
\<close>

fun is_bool_row :: "'f pyval \<Rightarrow> bool" where
  "is_bool_row (PList cs) = list_all (\<lambda>c. case c of PBool _ \<Rightarrow> True | _ \<Rightarrow> False) cs"
| "is_bool_row _ = False"

fun bool_row :: "'f pyval \<Rightarrow> bool list" where
  "bool_row (PList cs) = map (\<lambda>c. case c of PBool b \<Rightarrow> b | _ \<Rightarrow> False) cs"
| "bool_row _ = []"

definition np_array :: "'f pyval \<Rightarrow> error + bool list list" where
  "np_array v =
     (case v of
        PList rows \<Rightarrow>
          (let g = map bool_row rows
           in if rows \<noteq> [] \<and> list_all is_bool_row rows \<and> hd g \<noteq> [] \<and>
                 list_all (\<lambda>r. length r = length (hd g)) g
              then Inr g else Inl Unmodelled)
      | _ \<Rightarrow> Inl Unmodelled)"

definition selected_mask :: "'f pyfloat \<Rightarrow> string \<Rightarrow> string \<Rightarrow> error + bool list list" where
  "selected_mask py mask_results index =
     bind_err (py_eval py mask_results) (\<lambda>table.
     bind_err (py_int index) (\<lambda>i.
     bind_err (getitem table (PInt i)) (\<lambda>e.
     bind_err (getitem e (PStr ''mask'')) (\<lambda>m.
     bind_err (getitem m (PInt 0)) np_array))))"

text \<open>
  Lines 136 to 139: the mask becomes a three-channel uint8 image holding 1 inside the
  mask and 0 outside.
\<close>

definition mask_image :: "bool list list \<Rightarrow> image" where
  "mask_image g =
     \<lparr>height = length g, width = length (hd g),
      pix = \<lambda>y x c. if y < length g \<and> x < length (g ! y) \<and> g ! y ! x then 1 else 0\<rparr>"

text \<open>
  Lines 143 to 151: the generator runs on the mask at 512 by 512 with 20 steps and the
  generator \<^verbatim>\<open>torch.manual_seed(0)\<close>; its output is multiplied by the mask at that
  resolution and the product is resized to the size of the input image.
\<close>

definition masked_diff_result :: "env_b \<Rightarrow> bool list list \<Rightarrow> string \<Rightarrow> nat \<times> nat \<Rightarrow> error + image" where
  "masked_diff_result env g prompt original_size =
     (let mask512 = resize (resample env) (mask_image g) (512, 512)
      in bind_err (pipe env prompt 20 0 mask512) (\<lambda>diff.
           Inr (resize (resample env)
                  (np_mul \<lparr>height = 512, width = 512, pix = diff\<rparr> mask512) original_size)))"

text \<open>Lines 140 to 156, from the selected mask on.\<close>

definition composite :: "env_b \<Rightarrow> image \<Rightarrow> bool list list \<Rightarrow> string \<Rightarrow> error + image" where
  "composite env img g prompt =
     bind_err (cvtColor img) (\<lambda>rgb.
     bind_err (masked_diff_result env g prompt (width rgb, height rgb)) (\<lambda>patch.
     cvtColor (np_add rgb patch)))"

definition run_downstream ::
  "'f pyfloat \<Rightarrow> env_b \<Rightarrow> image \<Rightarrow> string \<Rightarrow> string \<Rightarrow> string \<Rightarrow> error + image" where
  "run_downstream py env img mask_results index prompt =
     bind_err (selected_mask py mask_results index) (\<lambda>g. composite env img g prompt)"

section \<open>The specification's wording\<close>




section \<open>Notions used in the statements and proofs\<close>

text \<open>
  \<open>float_ok py x\<close>: the interpreter prints the float \<open>x\<close> as a float literal that it
  reads back as \<open>x\<close>. Python promises this of \<^verbatim>\<open>repr\<close> for every finite float; it
  fails for \<^verbatim>\<open>nan\<close> and \<^verbatim>\<open>inf\<close>, whose \<^verbatim>\<open>repr\<close> is a name.
\<close>

definition float_ok :: "'f pyfloat \<Rightarrow> 'f \<Rightarrow> bool" where
  "float_ok py x =
     (is_float_literal (float_repr py x) \<and> float_of_literal py (float_repr py x) = Some x)"

definition floats_ok :: "'f pyfloat \<Rightarrow> 'f mask_table \<Rightarrow> bool" where
  "floats_ok py t = list_all (\<lambda>(k, e). list_all (list_all (float_ok py)) (entry_polygon e)) t"

text \<open>
  \<open>reads py txt v\<close>: the reader, given enough depth, reads \<open>txt\<close> as \<open>v\<close> in front
  of anything that starts with a delimiter.
\<close>

definition delim :: "string \<Rightarrow> bool" where
  "delim rest = (case rest of [] \<Rightarrow> True | c # _ \<Rightarrow> c \<in> set '',:]}'')"

definition reads :: "'f pyfloat \<Rightarrow> string \<Rightarrow> 'f pyval \<Rightarrow> bool" where
  "reads py txt v =
     (\<forall>m rest. length txt \<le> m \<longrightarrow> delim rest \<longrightarrow> parse_value py m (txt @ rest) = Inr (v, rest))"

text \<open>
  What the loop of Stage A has appended to the summary, to \<^verbatim>\<open>outputs\<close> and to the
  drawing commands after running over \<open>items\<close> from index \<open>idx\<close>.
\<close>

definition loop_lines :: "nat \<Rightarrow> (bool list list list \<times> string \<times> 'f list \<times> 'f bbox) list \<Rightarrow> string" where
  "loop_lines idx items =
     concat (map (\<lambda>(i, m, t, p, b). str_nat i @ '':'' @ t @ [CHR 0x0A])
               (zip [idx..<idx + length items] items))"

definition loop_entries ::
  "nat \<Rightarrow> (bool list list list \<times> string \<times> 'f list \<times> 'f bbox) list \<Rightarrow> 'f mask_table" where
  "loop_entries idx items =
     map (\<lambda>(i, m, t, p, b). (i, \<lparr>entry_mask = m, entry_polygon = pairs p @ take 1 (pairs p)\<rparr>))
       (zip [idx..<idx + length items] items)"

definition loop_draws ::
  "'f env_a \<Rightarrow> nat \<Rightarrow> (bool list list list \<times> string \<times> 'f list \<times> 'f bbox) list \<Rightarrow> 'f draw list" where
  "loop_draws env idx items =
     concat (map (\<lambda>(i, m, t, p, b).
                    [ShowMask m (np_random env i), Plot (pairs p @ take 1 (pairs p)),
                     Text (fst b) (fst (snd b)) (''idx:'' @ str_nat i @ '', '' @ t)])
               (zip [idx..<idx + length items] items))"


section \<open>Concrete collaborators and inputs\<close>

text \<open>
  Instances at which the statements below are evaluated. \<open>nearest\<close> is
  nearest-neighbour sampling, the simplest of Pillow's filters. \<open>paint v\<close> is a
  generator that answers every call with the colour \<open>v\<close> everywhere, \<open>seed_paint\<close>
  one that answers with its seed as the colour. \<open>whole_floats\<close> are the floats with
  an integral value, printed as \<^verbatim>\<open>n.0\<close>.
\<close>

definition nearest :: resampler where
  "nearest im sz =
     (\<lambda>y x c. pix im ((2 * y + 1) * height im div (2 * snd sz))
                      ((2 * x + 1) * width im div (2 * fst sz)) c)"

definition paint :: "u8 \<Rightarrow> env_b" where
  "paint v = \<lparr>pipe = (\<lambda>prompt steps seed control. Inr (\<lambda>y x c. v)), resample = nearest\<rparr>"


definition flat :: "nat \<Rightarrow> nat \<Rightarrow> u8 \<Rightarrow> image" where
  "flat h w v = \<lparr>height = h, width = w, pix = (\<lambda>y x c. v)\<rparr>"

definition whole_floats :: "nat pyfloat" where
  "whole_floats =
     \<lparr>float_repr = (\<lambda>n. str_nat n @ ''.0''),
      float_of_literal = (\<lambda>tok.
         if 2 \<le> length tok \<and> drop (length tok - 2) tok = ''.0'' \<and>
            is_int_literal (take (length tok - 2) tok)
         then Some (nat_of_digits (take (length tok - 2) tok)) else None)\<rparr>"

text \<open>
  Three texts for the \<^verbatim>\<open>Mask Results\<close> box: a table with one mask of one pixel, a
  list in place of the table, and the table whose only mask is one row of 513 pixels
  with the single pixel 257 inside.
\<close>

definition one_pixel_table :: string where
  "one_pixel_table = ''{0: {'mask': [[[True]]], 'polygon': []}}''"


definition stripe :: "bool list" where
  "stripe = replicate 257 False @ [True] @ replicate 255 False"

definition stripe_table :: "nat mask_table" where
  "stripe_table = [(0, \<lparr>entry_mask = [[stripe]], entry_polygon = []\<rparr>)]"

text \<open>
  Collaborators for Stage A: a spotter that reports the given texts and polygons on
  every image, the enclosing box of a polygon, a segmenter whose mask is the box itself,
  and a canvas of 640 by 480 pixels, matplotlib's default figure, rendered white.
\<close>

definition box_of :: "nat list \<Rightarrow> error + nat bbox" where
  "box_of p =
     (if p = [] \<or> odd (length p) then Inl ModelError
      else (let xs = map (\<lambda>q. q ! 0) (pairs p); ys = map (\<lambda>q. q ! 1) (pairs p)
            in Inr (fold min xs (hd xs), fold min ys (hd ys), fold max xs (hd xs), fold max ys (hd ys))))"

definition box_mask :: "image \<Rightarrow> nat bbox \<Rightarrow> bool list list list" where
  "box_mask img b =
     (case b of (x0, y0, x1, y1) \<Rightarrow>
        [map (\<lambda>y. map (\<lambda>x. x0 \<le> x \<and> x \<le> x1 \<and> y0 \<le> y \<and> y \<le> y1) [0..<width img])
           [0..<height img]])"

definition spot_env :: "string list \<Rightarrow> nat list list \<Rightarrow> nat env_a" where
  "spot_env texts polys =
     \<lparr>mmocr_inferencer = (\<lambda>img. Inr \<lparr>rec_texts = texts, det_polygons = polys\<rparr>),
      poly2bbox = box_of,
      sam_predictor = (\<lambda>img boxes. Inr (map (box_mask img) boxes)),
      np_random = (\<lambda>i. [0, 0, 0]),
      figure_size = (640, 480),
      render = (\<lambda>rgb draws y x c. 255)\<rparr>"

definition hello_env :: "nat env_a" where
  "hello_env = spot_env [''HELLO''] [[1, 0, 2, 0, 2, 1, 1, 1]]"


text \<open>The table Stage A builds with \<open>hello_env\<close> on an image 4 wide and 2 high.\<close>

definition hello_table :: "nat mask_table" where
  "hello_table =
     [(0, \<lparr>entry_mask = [[[False, True, True, False], [False, True, True, False]]],
           entry_polygon = [[1, 0], [2, 0], [2, 1], [1, 1], [1, 0]]\<rparr>)]"

section \<open>The two buttons\<close>

text \<open>
  The components of the page that the two \<^verbatim>\<open>click\<close> handlers read and write. A
  handler that raises leaves every component as it was.
\<close>

record ui =
  input_image :: image
  sam_results :: string
  mask_results :: string
  text_index :: string
  prompt :: string
  output_image :: "image option"

definition mmocr_sam_click :: "'f pyfloat \<Rightarrow> 'f env_a \<Rightarrow> ui \<Rightarrow> error + ui" where
  "mmocr_sam_click py env s =
     bind_err (run_mmocr_sam env (input_image s)) (\<lambda>(preview, output_str, outputs).
       Inr (s\<lparr>output_image := Some preview, sam_results := output_str,
              mask_results := str_table py outputs\<rparr>))"

definition downstream_click :: "'f pyfloat \<Rightarrow> env_b \<Rightarrow> ui \<Rightarrow> error + ui" where
  "downstream_click py env s =
     bind_err (run_downstream py env (input_image s) (mask_results s) (text_index s) (prompt s))
       (\<lambda>img. Inr (s\<lparr>output_image := Some img\<rparr>))"

text \<open>A page with an image 4 wide and 2 high loaded, index 0 and a prompt typed in.\<close>

definition ui0 :: ui where
  "ui0 = \<lparr>input_image = flat 2 4 9, sam_results = [], mask_results = [], text_index = ''0'',
          prompt = ''graffiti'', output_image = None\<rparr>"

section \<open>Facts\<close>

subsection \<open>Results\<close>

lemma bind_err_simps [simp]:
  "bind_err (Inl e) f = Inl e" "bind_err (Inr v) f = f v"
  by (simp_all add: bind_err_def)

lemma bind_err_Inr_iff:
  "bind_err r f = Inr y \<longleftrightarrow> (\<exists>v. r = Inr v \<and> f v = Inr y)"
  by (cases r) simp_all

lemma bind_err_Inl_iff:
  "bind_err r f = Inl e \<longleftrightarrow> r = Inl e \<or> (\<exists>v. r = Inr v \<and> f v = Inl e)"
  by (cases r) simp_all

lemma map_err_Inr:
  "map_err f xs = Inr ys \<Longrightarrow> length ys = length xs \<and> (\<forall>i<length xs. f (xs ! i) = Inr (ys ! i))"
proof (induction xs arbitrary: ys)
  case Nil
  then show ?case by simp
next
  case (Cons x xs)
  from Cons.prems obtain y ys' where y: "f x = Inr y" and ys': "map_err f xs = Inr ys'"
    and ys: "ys = y # ys'"
    by (auto simp add: bind_err_Inr_iff)
  from Cons.IH [OF ys'] y ys show ?case
    by (auto simp add: nth_Cons split: nat.splits)
qed

subsection \<open>Decimal numbers\<close>

lemma digit_char_cases:
  "d < 10 \<Longrightarrow> digit_char d \<in> set ''0123456789'' \<and> digit_of (digit_char d) = d \<and>
     (digit_char d = CHR ''0'' \<longleftrightarrow> d = 0)"
proof -
  assume "d < 10"
  then consider "d = 0" | "d = 1" | "d = 2" | "d = 3" | "d = 4" | "d = 5" | "d = 6" | "d = 7"
    | "d = 8" | "d = 9" by atomize_elim arith
  then show ?thesis
    by cases (simp_all add: digit_char_def digit_of_def)
qed

lemma is_digit_digit_char: "d < 10 \<Longrightarrow> is_digit (digit_char d)"
  using digit_char_cases [of d] by (simp only: is_digit_def)

lemma digit_of_digit_char: "d < 10 \<Longrightarrow> digit_of (digit_char d) = d"
  using digit_char_cases [of d] by simp

lemma str_nat_digits: "list_all is_digit (str_nat n)"
proof (induction n rule: str_nat.induct)
  case (1 n)
  show ?case
  proof (cases "n < 10")
    case True
    then show ?thesis by (subst str_nat.simps) (simp add: is_digit_digit_char)
  next
    case False
    with 1 show ?thesis by (subst str_nat.simps) (simp add: is_digit_digit_char)
  qed
qed

lemma str_nat_nonempty: "str_nat n \<noteq> []"
  by (subst str_nat.simps) simp

lemma nat_of_digits_snoc: "nat_of_digits (ds @ [c]) = 10 * nat_of_digits ds + digit_of c"
  by (simp add: nat_of_digits_def)

lemma nat_of_digits_str_nat: "nat_of_digits (str_nat n) = n"
proof (induction n rule: str_nat.induct)
  case (1 n)
  show ?case
  proof (cases "n < 10")
    case True
    then show ?thesis
      by (subst str_nat.simps) (simp add: nat_of_digits_def digit_of_digit_char)
  next
    case False
    with 1 show ?thesis
      by (subst str_nat.simps) (simp add: nat_of_digits_snoc digit_of_digit_char)
  qed
qed

lemma hd_str_nat: "hd (str_nat n) = CHR ''0'' \<Longrightarrow> n = 0"
proof (induction n rule: str_nat.induct)
  case (1 n)
  show ?case
  proof (cases "n < 10")
    case True
    with "1.prems" show ?thesis
      using digit_char_cases [of n] by (subst (asm) str_nat.simps) simp
  next
    case False
    with "1.prems" have "hd (str_nat (n div 10)) = CHR ''0''"
      by (subst (asm) str_nat.simps) (simp add: str_nat_nonempty)
    with 1 False have "n div 10 = 0" by simp
    with False show ?thesis by simp
  qed
qed

lemma str_nat_0: "str_nat 0 = ''0''"
  by (subst str_nat.simps) (simp add: digit_char_def)

lemma is_int_literal_str_nat: "is_int_literal (str_nat n)"
proof (cases "n = 0")
  case True
  then show ?thesis by (simp add: str_nat_0 is_int_literal_def is_digit_def)
next
  case False
  then have "hd (str_nat n) \<noteq> CHR ''0''" using hd_str_nat by blast
  then show ?thesis
    by (simp add: is_int_literal_def str_nat_digits str_nat_nonempty)
qed

subsection \<open>Float literals\<close>

lemma is_digit_num_char: "is_digit c \<Longrightarrow> is_num_char c"
  by (simp add: is_num_char_def)

lemma is_digit_not_exp: "is_digit c \<Longrightarrow> c \<noteq> CHR ''e'' \<and> c \<noteq> CHR ''E'' \<and> c \<noteq> CHR ''-''"
  by (auto simp add: is_digit_def)

lemma digits_takeWhile:
  assumes "list_all is_digit xs"
  shows "takeWhile (\<lambda>c. c \<noteq> CHR ''e'' \<and> c \<noteq> CHR ''E'') xs = xs"
    "dropWhile (\<lambda>c. c \<noteq> CHR ''e'' \<and> c \<noteq> CHR ''E'') xs = []"
    "takeWhile is_digit xs = xs" "dropWhile is_digit xs = []"
  using assms is_digit_not_exp by (auto simp add: list_all_iff takeWhile_eq_all_conv)

lemma is_exponent_Nil [simp]: "\<not> is_exponent []"
  by (simp add: is_exponent_def)

lemma not_float_digits: "list_all is_digit xs \<Longrightarrow> \<not> is_float_literal xs"
proof
  assume d: "list_all is_digit xs" and f: "is_float_literal xs"
  have nohd: "\<not> (xs \<noteq> [] \<and> hd xs = CHR ''-'')"
    using d is_digit_not_exp [of "hd xs"] by (cases xs) auto
  note t = digits_takeWhile [OF d]
  from f nohd show False
    unfolding is_float_literal_def Let_def
    by (simp add: t del: dropWhile_eq_Nil_conv takeWhile_eq_all_conv)
qed

lemma not_float_neg_digits:
  assumes d: "list_all is_digit xs"
  shows "\<not> is_float_literal (CHR ''-'' # xs)"
proof
  assume f: "is_float_literal (CHR ''-'' # xs)"
  note t = digits_takeWhile [OF d]
  from f show False
    unfolding is_float_literal_def Let_def
    by (simp add: t del: dropWhile_eq_Nil_conv takeWhile_eq_all_conv)
qed

lemma is_exponent_chars:
  assumes "is_exponent ex" "hd ex = CHR ''e'' \<or> hd ex = CHR ''E''"
  shows "list_all is_num_char ex"
proof (cases ex)
  case Nil
  then show ?thesis by simp
next
  case (Cons c ds)
  with assms(2) have c: "is_num_char c" by (auto simp add: is_num_char_def)
  have "list_all is_num_char ds"
  proof (cases "ds \<noteq> [] \<and> (hd ds = CHR ''+'' \<or> hd ds = CHR ''-'')")
    case True
    with assms(1) Cons have "list_all is_digit (tl ds)" by (simp add: is_exponent_def)
    then have "list_all is_num_char (tl ds)"
      by (auto simp add: list_all_iff is_digit_num_char)
    moreover from True have "is_num_char (hd ds)" by (auto simp add: is_num_char_def)
    ultimately show ?thesis using True by (cases ds) auto
  next
    case False
    with assms(1) Cons have "list_all is_digit ds" by (auto simp add: is_exponent_def)
    then show ?thesis by (auto simp add: list_all_iff is_digit_num_char)
  qed
  with c Cons show ?thesis by simp
qed

lemma float_body_chars:
  fixes body :: string
  defines "mant \<equiv> takeWhile (\<lambda>c. c \<noteq> CHR ''e'' \<and> c \<noteq> CHR ''E'') body"
    and "ex \<equiv> dropWhile (\<lambda>c. c \<noteq> CHR ''e'' \<and> c \<noteq> CHR ''E'') body"
  defines "ip \<equiv> takeWhile is_digit mant" and "fr \<equiv> dropWhile is_digit mant"
  assumes ok: "if fr = [] then ip \<noteq> [] \<and> is_exponent ex
          else hd fr = CHR ''.'' \<and> list_all is_digit (tl fr) \<and> (ip \<noteq> [] \<or> tl fr \<noteq> [])
               \<and> (ex = [] \<or> is_exponent ex)"
  shows "body \<noteq> [] \<and> list_all is_num_char body \<and> (is_digit (hd body) \<or> hd body = CHR ''.'')"
proof -
  have "mant = ip @ fr" by (simp add: ip_def fr_def)
  moreover have "body = mant @ ex" by (simp add: mant_def ex_def)
  ultimately have body: "body = ip @ fr @ ex" by simp
  have ip: "list_all is_digit ip"
    unfolding ip_def list_all_iff by (auto dest: set_takeWhileD)
  then have ipn: "list_all is_num_char ip"
    by (auto simp add: list_all_iff is_digit_num_char)
  have exh: "hd ex = CHR ''e'' \<or> hd ex = CHR ''E''" if "ex \<noteq> []"
    using that hd_dropWhile [of "\<lambda>c. c \<noteq> CHR ''e'' \<and> c \<noteq> CHR ''E''" body]
    unfolding ex_def by auto
  have exn: "list_all is_num_char ex"
  proof (cases "ex = []")
    case True
    then show ?thesis by simp
  next
    case False
    with ok have "is_exponent ex" by (auto split: if_splits)
    with exh False show ?thesis by (intro is_exponent_chars) auto
  qed
  have frn: "list_all is_num_char fr \<and> (fr \<noteq> [] \<longrightarrow> hd fr = CHR ''.'')"
  proof (cases "fr = []")
    case True
    then show ?thesis by simp
  next
    case False
    with ok have "hd fr = CHR ''.''" "list_all is_digit (tl fr)" by simp_all
    with False show ?thesis
      by (cases fr) (auto simp add: list_all_iff is_digit_num_char is_num_char_def)
  qed
  have nonempty: "ip \<noteq> [] \<or> fr \<noteq> []"
    using ok by (auto split: if_splits)
  have hd: "is_digit (hd body) \<or> hd body = CHR ''.''"
  proof (cases "ip = []")
    case True
    with nonempty frn body show ?thesis by (cases fr) auto
  next
    case False
    with ip body show ?thesis by (cases ip) auto
  qed
  from nonempty body ipn frn exn hd show ?thesis by auto
qed

lemma float_literal_shape:
  assumes "is_float_literal tok"
  shows "tok \<noteq> []" "list_all is_num_char tok"
    "is_digit (hd tok) \<or> hd tok = CHR ''-'' \<or> hd tok = CHR ''.''"
    "\<not> is_int_literal tok" "\<not> (hd tok = CHR ''-'' \<and> is_int_literal (tl tok))"
proof -
  define body where "body = (if tok \<noteq> [] \<and> hd tok = CHR ''-'' then tl tok else tok)"
  from assms have b: "body \<noteq> [] \<and> list_all is_num_char body \<and> (is_digit (hd body) \<or> hd body = CHR ''.'')"
    unfolding is_float_literal_def Let_def body_def by (intro float_body_chars) simp
  show "tok \<noteq> []" using b by (auto simp add: body_def)
  show "list_all is_num_char tok"
    using b by (cases tok) (auto simp add: body_def is_num_char_def split: if_splits)
  show "is_digit (hd tok) \<or> hd tok = CHR ''-'' \<or> hd tok = CHR ''.''"
    using b by (auto simp add: body_def split: if_splits)
  show "\<not> is_int_literal tok"
    using assms not_float_digits by (auto simp add: is_int_literal_def)
  show "\<not> (hd tok = CHR ''-'' \<and> is_int_literal (tl tok))"
  proof
    assume h: "hd tok = CHR ''-'' \<and> is_int_literal (tl tok)"
    with \<open>tok \<noteq> []\<close> have "tok = CHR ''-'' # tl tok" by (cases tok) auto
    moreover from h have "list_all is_digit (tl tok)" by (simp add: is_int_literal_def)
    ultimately show False using assms not_float_neg_digits by metis
  qed
qed

lemma whole_floats_ok: "float_ok whole_floats n"
proof -
  let ?d = "str_nat n"
  have dg: "list_all is_digit ?d" by (rule str_nat_digits)
  have ne: "?d \<noteq> []" by (rule str_nat_nonempty)
  from dg ne have hd: "hd (?d @ ''.0'') \<noteq> CHR ''-''"
    using is_digit_not_exp [of "hd ?d"] by (cases ?d) auto
  have all: "\<forall>c\<in>set (?d @ ''.0''). c \<noteq> CHR ''e'' \<and> c \<noteq> CHR ''E''"
    using dg is_digit_not_exp by (auto simp add: list_all_iff)
  then have m: "takeWhile (\<lambda>c. c \<noteq> CHR ''e'' \<and> c \<noteq> CHR ''E'') (?d @ ''.0'') = ?d @ ''.0''"
    "dropWhile (\<lambda>c. c \<noteq> CHR ''e'' \<and> c \<noteq> CHR ''E'') (?d @ ''.0'') = []"
    by (simp_all add: takeWhile_eq_all_conv)
  from dg have i: "takeWhile is_digit (?d @ ''.0'') = ?d" "dropWhile is_digit (?d @ ''.0'') = ''.0''"
    by (simp_all add: list_all_iff takeWhile_append2 dropWhile_append2 is_digit_def)
  have "is_float_literal (?d @ ''.0'')"
    unfolding is_float_literal_def Let_def using hd ne
    by (simp add: m i is_digit_def del: takeWhile_eq_all_conv dropWhile_eq_Nil_conv)
  moreover have "float_of_literal whole_floats (?d @ ''.0'') = Some n"
    by (simp add: whole_floats_def is_int_literal_str_nat nat_of_digits_str_nat)
  ultimately show ?thesis
    by (simp add: float_ok_def whole_floats_def)
qed

lemma whole_floats_table: "floats_ok whole_floats t"
  by (simp add: floats_ok_def list_all_iff whole_floats_ok case_prod_unfold)

subsection \<open>The reader on the text of a table\<close>

lemmas parse_simps = parse_value.simps(2) parse_elems.simps(2) parse_pairs.simps(2)

declare parse_value.simps(2) [simp del] parse_elems.simps(2) [simp del] parse_pairs.simps(2) [simp del]

lemma skip_ws_simps [simp]:
  "skip_ws [] = []"
  "skip_ws (CHR '' '' # s) = skip_ws s"
  "c \<noteq> CHR '' '' \<Longrightarrow> skip_ws (c # s) = c # s"
  by (simp_all add: skip_ws_def)

lemma parse_value_space [simp]: "parse_value py m (CHR '' '' # s) = parse_value py m s"
  by (cases m) (simp_all add: parse_simps)

lemma parse_elems_space [simp]: "parse_elems py m (CHR '' '' # s) = parse_elems py m s"
  by (cases m) (simp_all add: parse_simps)

lemma parse_pairs_space [simp]: "parse_pairs py m (CHR '' '' # s) = parse_pairs py m s"
  by (cases m) (simp_all add: parse_simps)

lemma atom_closing:
  assumes "c \<in> set '']},:''"
  shows "atom py (c # r) = Inl Unmodelled"
proof -
  from assms consider "c = CHR '']''" | "c = CHR ''}''" | "c = CHR '',''" | "c = CHR '':''"
    by auto
  then show ?thesis
    by cases (simp_all add: atom_def keyword_def is_digit_def)
qed

lemma parse_value_head:
  assumes "parse_value py m s = Inr z"
  shows "skip_ws s \<noteq> [] \<and> hd (skip_ws s) \<notin> set '']},:''"
proof (cases m)
  case 0
  with assms show ?thesis by simp
next
  case (Suc n)
  show ?thesis
  proof (cases "skip_ws s")
    case Nil
    with assms Suc show ?thesis by (simp add: parse_simps)
  next
    case (Cons c r)
    have "c \<notin> set '']},:''"
    proof
      assume c: "c \<in> set '']},:''"
      then have "atom py (c # r) = Inl Unmodelled" by (rule atom_closing)
      moreover from c have "c \<noteq> CHR ''[''" "c \<noteq> CHR ''{''" by auto
      ultimately have "parse_value py m s = Inl Unmodelled"
        using Suc Cons by (simp add: parse_simps)
      with assms show False by simp
    qed
    with Cons show ?thesis by simp
  qed
qed

lemma readsD:
  "reads py txt v \<Longrightarrow> length txt \<le> m \<Longrightarrow> delim rest \<Longrightarrow>
     parse_value py m (txt @ rest) = Inr (v, rest)"
  by (simp add: reads_def)

lemma reads_head:
  assumes "reads py txt v" "delim rest"
  shows "skip_ws (txt @ rest) \<noteq> [] \<and> hd (skip_ws (txt @ rest)) \<notin> set '']},:''"
proof -
  from assms have "parse_value py (length txt) (txt @ rest) = Inr (v, rest)"
    by (simp add: reads_def)
  then show ?thesis by (rule parse_value_head)
qed

lemma delim_simps [simp]:
  "delim []" "delim (CHR '','' # s)" "delim (CHR '']'' # s)" "delim (CHR ''}'' # s)"
  "delim (CHR '':'' # s)"
  by (simp_all add: delim_def)

lemma parse_elems_join:
  assumes "\<forall>x\<in>set xs. reads py (f x) (g x)" "xs \<noteq> []"
    "length (join '', '' (map f xs)) < m"
  shows "parse_elems py m (join '', '' (map f xs) @ CHR '']'' # rest) = Inr (map g xs, rest)"
  using assms
proof (induction xs arbitrary: m)
  case Nil
  then show ?case by simp
next
  case (Cons x xs)
  from Cons.prems obtain n where m: "m = Suc n" by (cases m) auto
  from Cons.prems have rx: "reads py (f x) (g x)" by simp
  show ?case
  proof (cases xs)
    case Nil
    from Cons.prems m Nil have "length (f x) \<le> n" by simp
    with rx have "parse_value py n (f x @ CHR '']'' # rest) = Inr (g x, CHR '']'' # rest)"
      by (simp add: reads_def)
    with Nil m show ?thesis by (simp add: parse_simps)
  next
    case (Cons y ys)
    let ?more = "join '', '' (map f xs)"
    from Cons have j: "join '', '' (f x # map f xs) = f x @ '', '' @ ?more" by simp
    from Cons.prems m j have len: "length (f x) \<le> n" "length ?more < n" by simp_all
    from rx len have
      "parse_value py n (f x @ CHR '','' # CHR '' '' # ?more @ CHR '']'' # rest)
         = Inr (g x, CHR '','' # CHR '' '' # ?more @ CHR '']'' # rest)"
      by (simp add: reads_def)
    moreover have "parse_elems py n (?more @ CHR '']'' # rest) = Inr (map g xs, rest)"
      using Cons.IH [of n] Cons.prems Cons len by simp
    ultimately show ?thesis
      by (simp add: m j parse_simps)
  qed
qed

lemma reads_list:
  assumes "\<forall>x\<in>set xs. reads py (f x) (g x)"
  shows "reads py (str_list f xs) (PList (map g xs))"
  unfolding reads_def
proof (intro allI impI)
  fix m rest
  assume len: "length (str_list f xs) \<le> m" and d: "delim rest"
  then obtain n where m: "m = Suc n" by (cases m) (auto simp add: str_list_def)
  show "parse_value py m (str_list f xs @ rest) = Inr (PList (map g xs), rest)"
  proof (cases xs)
    case Nil
    then show ?thesis by (simp add: m str_list_def parse_simps)
  next
    case (Cons x ys)
    let ?j = "join '', '' (map f xs)"
    let ?r = "?j @ CHR '']'' # rest"
    from Cons obtain r0 where r0: "?r = f x @ r0" "delim r0"
      by (cases ys) auto
    from assms Cons have "reads py (f x) (g x)" by simp
    with r0 have hd: "skip_ws ?r \<noteq> [] \<and> hd (skip_ws ?r) \<notin> set '']},:''"
      using reads_head by metis
    from len m have "length ?j < n" by (simp add: str_list_def)
    with assms Cons have pe: "parse_elems py n ?r = Inr (map g xs, rest)"
      by (intro parse_elems_join) simp_all
    from hd obtain d r' where sk: "skip_ws ?r = d # r'" "d \<noteq> CHR '']''"
      by (cases "skip_ws ?r") auto
    show ?thesis
      by (simp add: m str_list_def parse_simps sk pe)
  qed
qed

lemma parse_pairs_join:
  assumes "\<forall>p\<in>set ps. reads py (fk p) (gk p) \<and> reads py (fv p) (gv p)" "ps \<noteq> []"
    "length (join '', '' (map (\<lambda>p. fk p @ '': '' @ fv p) ps)) < m"
  shows "parse_pairs py m (join '', '' (map (\<lambda>p. fk p @ '': '' @ fv p) ps) @ CHR ''}'' # rest)
           = Inr (map (\<lambda>p. (gk p, gv p)) ps, rest)"
  using assms
proof (induction ps arbitrary: m)
  case Nil
  then show ?case by simp
next
  case (Cons p ps)
  from Cons.prems obtain n where m: "m = Suc n" by (cases m) auto
  from Cons.prems have rk: "reads py (fk p) (gk p)" and rv: "reads py (fv p) (gv p)" by simp_all
  show ?case
  proof (cases ps)
    case Nil
    from Cons.prems m Nil have len: "length (fk p) \<le> n" "length (fv p) \<le> n" by simp_all
    from rk len have
      "parse_value py n (fk p @ CHR '':'' # CHR '' '' # fv p @ CHR ''}'' # rest)
         = Inr (gk p, CHR '':'' # CHR '' '' # fv p @ CHR ''}'' # rest)"
      by (simp add: reads_def)
    moreover from rv len have
      "parse_value py n (fv p @ CHR ''}'' # rest) = Inr (gv p, CHR ''}'' # rest)"
      by (simp add: reads_def)
    ultimately show ?thesis using Nil m by (simp add: parse_simps)
  next
    case (Cons q qs)
    let ?more = "join '', '' (map (\<lambda>p. fk p @ '': '' @ fv p) ps)"
    from Cons have j: "join '', '' ((fk p @ '': '' @ fv p) # map (\<lambda>p. fk p @ '': '' @ fv p) ps)
        = (fk p @ '': '' @ fv p) @ '', '' @ ?more" by simp
    from Cons.prems m j have len: "length (fk p) \<le> n" "length (fv p) \<le> n" "length ?more < n"
      by simp_all
    from rk len have
      "parse_value py n (fk p @ CHR '':'' # CHR '' '' # fv p @ CHR '','' # CHR '' '' # ?more @ CHR ''}'' # rest)
         = Inr (gk p, CHR '':'' # CHR '' '' # fv p @ CHR '','' # CHR '' '' # ?more @ CHR ''}'' # rest)"
      by (simp add: reads_def)
    moreover from rv len have
      "parse_value py n (fv p @ CHR '','' # CHR '' '' # ?more @ CHR ''}'' # rest)
         = Inr (gv p, CHR '','' # CHR '' '' # ?more @ CHR ''}'' # rest)"
      by (simp add: reads_def)
    moreover have "parse_pairs py n (?more @ CHR ''}'' # rest) = Inr (map (\<lambda>p. (gk p, gv p)) ps, rest)"
      using Cons.IH [of n] Cons.prems Cons len by simp
    ultimately show ?thesis
      using j by (simp add: m parse_simps)
  qed
qed

lemma reads_dict:
  assumes "\<forall>p\<in>set ps. reads py (fk p) (gk p) \<and> reads py (fv p) (gv p)"
  shows "reads py (''{'' @ join '', '' (map (\<lambda>p. fk p @ '': '' @ fv p) ps) @ ''}'')
           (PDict (map (\<lambda>p. (gk p, gv p)) ps))"
  unfolding reads_def
proof (intro allI impI)
  fix m rest
  let ?j = "join '', '' (map (\<lambda>p. fk p @ '': '' @ fv p) ps)"
  assume len: "length (''{'' @ ?j @ ''}'') \<le> m" and d: "delim rest"
  then obtain n where m: "m = Suc n" by (cases m) auto
  show "parse_value py m ((''{'' @ ?j @ ''}'') @ rest) = Inr (PDict (map (\<lambda>p. (gk p, gv p)) ps), rest)"
  proof (cases ps)
    case Nil
    then show ?thesis by (simp add: m parse_simps)
  next
    case (Cons p qs)
    let ?r = "?j @ CHR ''}'' # rest"
    from Cons obtain r0 where r0: "?r = fk p @ r0" "delim r0"
      by (cases qs) auto
    from assms Cons have "reads py (fk p) (gk p)" by simp
    with r0 have hd: "skip_ws ?r \<noteq> [] \<and> hd (skip_ws ?r) \<notin> set '']},:''"
      using reads_head by metis
    from len m have "length ?j < n" by simp
    with assms Cons have pe: "parse_pairs py n ?r = Inr (map (\<lambda>p. (gk p, gv p)) ps, rest)"
      by (intro parse_pairs_join) simp_all
    from hd obtain d r' where sk: "skip_ws ?r = d # r'" "d \<noteq> CHR ''}''"
      by (cases "skip_ws ?r") auto
    show ?thesis
      using sk pe by (simp add: m parse_simps)
  qed
qed

lemma reads_bool: "reads py (str_bool b) (PBool b)"
  unfolding reads_def
proof (intro allI impI)
  fix m rest
  assume len: "length (str_bool b) \<le> m" and d: "delim rest"
  then obtain n where m: "m = Suc n" by (cases m) (auto simp add: str_bool_def split: if_splits)
  from d have k: "(case rest of [] \<Rightarrow> True | c # _ \<Rightarrow> \<not> is_alpha c \<and> \<not> is_digit c)"
    by (auto simp add: delim_def is_alpha_def is_digit_def split: list.splits)
  show "parse_value py m (str_bool b @ rest) = Inr (PBool b, rest)"
  proof (cases b)
    case True
    with k show ?thesis
      by (simp add: m str_bool_def parse_simps atom_def keyword_def is_digit_def)
  next
    case False
    with k show ?thesis
      by (simp add: m str_bool_def parse_simps atom_def keyword_def is_digit_def)
  qed
qed

lemma delim_not_num:
  assumes "delim rest"
  shows "takeWhile is_num_char rest = []" "dropWhile is_num_char rest = rest"
  using assms
  by (cases rest; auto simp add: delim_def is_num_char_def is_digit_def)+

lemma parse_value_number:
  assumes "tok \<noteq> []" "list_all is_num_char tok"
    "is_digit (hd tok) \<or> hd tok = CHR ''-'' \<or> hd tok = CHR ''.''" "delim rest"
  shows "parse_value py (Suc n) (tok @ rest) = bind_err (number py tok) (\<lambda>v. Inr (v, rest))"
proof -
  from assms(1) obtain c cs where tok: "tok = c # cs" by (cases tok) auto
  with assms(3) have c: "is_digit c \<or> c = CHR ''-'' \<or> c = CHR ''.''" by simp
  then have ne: "c \<noteq> CHR '' ''" "c \<noteq> CHR ''[''" "c \<noteq> CHR ''{''" "c \<noteq> CHR 0x27" "c \<noteq> CHR 0x22"
    by (auto simp add: is_digit_def)
  from assms(2) have "\<forall>x\<in>set tok. is_num_char x" by (simp add: list_all_iff)
  then have tw: "takeWhile is_num_char (tok @ rest) = tok" "dropWhile is_num_char (tok @ rest) = rest"
    using delim_not_num [OF assms(4)] by (simp_all add: takeWhile_append2 dropWhile_append2)
  have "parse_value py (Suc n) (tok @ rest) = atom py (tok @ rest)"
    using ne by (simp add: tok parse_simps)
  also have "\<dots> = bind_err (number py (takeWhile is_num_char (tok @ rest)))
                      (\<lambda>v. Inr (v, dropWhile is_num_char (tok @ rest)))"
    using ne c by (simp add: tok atom_def del: takeWhile.simps dropWhile.simps)
  finally show ?thesis by (simp only: tw)
qed

lemma reads_nat: "reads py (str_nat k) (PInt (int k))"
  unfolding reads_def
proof (intro allI impI)
  fix m rest
  assume len: "length (str_nat k) \<le> m" and d: "delim rest"
  with str_nat_nonempty [of k] obtain n where m: "m = Suc n" by (cases m) auto
  have dg: "list_all is_digit (str_nat k)" by (rule str_nat_digits)
  then have "list_all is_num_char (str_nat k)"
    by (auto simp add: list_all_iff is_digit_num_char)
  moreover from dg str_nat_nonempty [of k] have "is_digit (hd (str_nat k))"
    by (cases "str_nat k") auto
  ultimately have "parse_value py (Suc n) (str_nat k @ rest)
      = bind_err (number py (str_nat k)) (\<lambda>v. Inr (v, rest))"
    using d str_nat_nonempty by (intro parse_value_number) auto
  then show "parse_value py m (str_nat k @ rest) = Inr (PInt (int k), rest)"
    by (simp add: m number_def is_int_literal_str_nat nat_of_digits_str_nat)
qed

lemma reads_float:
  assumes "float_ok py x"
  shows "reads py (float_repr py x) (PFloat x)"
  unfolding reads_def
proof (intro allI impI)
  fix m rest
  assume len: "length (float_repr py x) \<le> m" and d: "delim rest"
  from assms have fl: "is_float_literal (float_repr py x)"
    and v: "float_of_literal py (float_repr py x) = Some x"
    by (simp_all add: float_ok_def)
  note sh = float_literal_shape [OF fl]
  from len sh(1) obtain n where m: "m = Suc n" by (cases m) auto
  have "parse_value py (Suc n) (float_repr py x @ rest)
      = bind_err (number py (float_repr py x)) (\<lambda>v. Inr (v, rest))"
    using sh d by (intro parse_value_number) auto
  then show "parse_value py m (float_repr py x @ rest) = Inr (PFloat x, rest)"
    using sh fl v by (simp add: m number_def)
qed

lemma reads_key:
  assumes "list_all is_plain_char k" "CHR 0x27 \<notin> set k"
  shows "reads py (CHR 0x27 # k @ [CHR 0x27]) (PStr k)"
  unfolding reads_def
proof (intro allI impI)
  fix m rest
  assume len: "length (CHR 0x27 # k @ [CHR 0x27]) \<le> m" and d: "delim rest"
  then obtain n where m: "m = Suc n" by (cases m) auto
  from assms(2) have tw: "takeWhile (\<lambda>d. d \<noteq> CHR 0x27) (k @ CHR 0x27 # rest) = k"
    "dropWhile (\<lambda>d. d \<noteq> CHR 0x27) (k @ CHR 0x27 # rest) = CHR 0x27 # rest"
    by (induction k) auto
  show "parse_value py m ((CHR 0x27 # k @ [CHR 0x27]) @ rest) = Inr (PStr k, rest)"
    using assms(1) by (simp add: m parse_simps atom_def tw Let_def)
qed

lemma reads_entry:
  assumes "list_all (list_all (float_ok py)) (entry_polygon e)"
  shows "reads py (str_entry py e) (entry_val e)"
proof -
  let ?M = "str_list (str_list (str_list str_bool)) (entry_mask e)"
  let ?Mv = "PList (map (\<lambda>g. PList (map (\<lambda>r. PList (map PBool r)) g)) (entry_mask e))"
  let ?P = "str_list (str_list (float_repr py)) (entry_polygon e)"
  let ?Pv = "PList (map (\<lambda>p. PList (map PFloat p)) (entry_polygon e))"
  let ?ps = "[(''mask'', ?M, ?Mv), (''polygon'', ?P, ?Pv)]"
  let ?fk = "\<lambda>p::(string \<times> string \<times> 'a pyval). CHR 0x27 # fst p @ [CHR 0x27]"
  have M: "reads py ?M ?Mv"
    by (intro reads_list ballI reads_bool)
  have P: "reads py ?P ?Pv"
    using assms by (intro reads_list ballI reads_float) (auto simp add: list_all_iff)
  have k1: "reads py (?fk (''mask'', ?M, ?Mv)) (PStr ''mask'')"
    unfolding fst_conv by (rule reads_key) (simp_all add: is_plain_char_def)
  have k2: "reads py (?fk (''polygon'', ?P, ?Pv)) (PStr ''polygon'')"
    unfolding fst_conv by (rule reads_key) (simp_all add: is_plain_char_def)
  have "reads py (''{'' @ join '', '' (map (\<lambda>p. ?fk p @ '': '' @ fst (snd p)) ?ps) @ ''}'')
          (PDict (map (\<lambda>p. (PStr (fst p), snd (snd p))) ?ps))"
    using M P k1 k2 by (intro reads_dict) simp
  moreover have "''{'' @ join '', '' (map (\<lambda>p. ?fk p @ '': '' @ fst (snd p)) ?ps) @ ''}'' = str_entry py e"
    by (simp add: str_entry_def)
  moreover have "PDict (map (\<lambda>p. (PStr (fst p), snd (snd p))) ?ps) = entry_val e"
    by (simp add: entry_val_def)
  ultimately show ?thesis by simp
qed

lemma reads_table:
  assumes "floats_ok py t"
  shows "reads py (str_table py t) (table_val t)"
proof -
  have "reads py (''{'' @ join '', '' (map (\<lambda>p. str_nat (fst p) @ '': '' @ str_entry py (snd p)) t) @ ''}'')
          (PDict (map (\<lambda>p. (PInt (int (fst p)), entry_val (snd p))) t))"
    using assms
    by (intro reads_dict ballI conjI reads_nat reads_entry)
       (auto simp add: floats_ok_def list_all_iff)
  then show ?thesis
    by (simp add: str_table_def table_val_def case_prod_unfold)
qed

lemma entry_val_keys: "\<not> float_key (entry_val e)" "\<not> unhashable_key (entry_val e)"
  by (simp_all add: entry_val_def list_ex_iff)

lemma table_val_keys: "\<not> float_key (table_val t)" "\<not> unhashable_key (table_val t)"
  by (auto simp add: table_val_def list_ex_iff entry_val_keys)

lemma py_eval_str_table:
  assumes "floats_ok py t"
  shows "py_eval py (str_table py t) = Inr (table_val t)"
proof -
  have "parse_value py (Suc (length (str_table py t))) (str_table py t @ []) = Inr (table_val t, [])"
    by (rule readsD [OF reads_table [OF assms]]) simp_all
  then show ?thesis
    by (simp add: py_eval_def table_val_keys)
qed

subsection \<open>The exceptions of the reader\<close>

lemma number_error: "number py tok = Inl e \<Longrightarrow> e = Unmodelled"
  by (simp add: number_def split: if_splits option.splits)

lemma atom_error:
  assumes "atom py s = Inl e"
  shows "e = SyntaxError \<or> e = Unmodelled"
proof (cases s)
  case Nil
  with assms show ?thesis by (simp add: atom_def)
next
  case (Cons c r)
  consider (quote) "c = CHR 0x27 \<or> c = CHR 0x22"
    | (num) "\<not> (c = CHR 0x27 \<or> c = CHR 0x22)" "is_digit c \<or> c = CHR ''-'' \<or> c = CHR ''.''"
    | (word) "\<not> (c = CHR 0x27 \<or> c = CHR 0x22)" "\<not> (is_digit c \<or> c = CHR ''-'' \<or> c = CHR ''.'')"
    by blast
  then show ?thesis
  proof cases
    case quote
    then have "atom py s =
        (let body = takeWhile (\<lambda>d. d \<noteq> c) r; rest = dropWhile (\<lambda>d. d \<noteq> c) r
            in if \<not> list_all is_plain_char body then Inl Unmodelled
               else if rest = [] then Inl SyntaxError
               else Inr (PStr body, tl rest))"
      unfolding atom_def Cons by (simp only: list.case if_True)
    with assms show ?thesis by (simp add: Let_def split: if_splits)
  next
    case num
    then have "atom py s =
        bind_err (number py (takeWhile is_num_char s)) (\<lambda>v. Inr (v, dropWhile is_num_char s))"
      unfolding atom_def Cons by (simp only: list.case if_True if_False)
    with assms have "number py (takeWhile is_num_char s) = Inl e"
      by (simp add: bind_err_Inl_iff)
    then show ?thesis by (simp add: number_error)
  next
    case word
    then have "atom py s =
        (case keyword ''True'' s of Some r' \<Rightarrow> Inr (PBool True, r') | None \<Rightarrow>
              (case keyword ''False'' s of Some r' \<Rightarrow> Inr (PBool False, r') | None \<Rightarrow>
              (case keyword ''None'' s of Some r' \<Rightarrow> Inr (PNone, r') | None \<Rightarrow>
               Inl Unmodelled)))"
      unfolding atom_def Cons by (simp only: list.case if_False)
    with assms show ?thesis by (simp split: option.splits)
  qed
qed

lemma parse_error:
  "(parse_value py n s = Inl e \<longrightarrow> e = SyntaxError \<or> e = Unmodelled) \<and>
   (parse_elems py n s = Inl e \<longrightarrow> e = SyntaxError \<or> e = Unmodelled) \<and>
   (parse_pairs py n s = Inl e \<longrightarrow> e = SyntaxError \<or> e = Unmodelled)"
proof (induction n arbitrary: s)
  case 0
  then show ?case by simp
next
  case (Suc n)
  have ih: "\<And>s. parse_value py n s = Inl e \<Longrightarrow> e = SyntaxError \<or> e = Unmodelled"
    "\<And>s. parse_elems py n s = Inl e \<Longrightarrow> e = SyntaxError \<or> e = Unmodelled"
    "\<And>s. parse_pairs py n s = Inl e \<Longrightarrow> e = SyntaxError \<or> e = Unmodelled"
    using Suc.IH by blast+
  have v: "e = SyntaxError \<or> e = Unmodelled" if a: "parse_value py (Suc n) s = Inl e"
  proof (cases "skip_ws s")
    case Nil
    with a show ?thesis by (simp add: parse_simps)
  next
    case (Cons c r)
    consider (list) "c = CHR ''[''" | (dict) "c \<noteq> CHR ''[''" "c = CHR ''{''"
      | (atom) "c \<noteq> CHR ''[''" "c \<noteq> CHR ''{''" by blast
    then show ?thesis
    proof cases
      case list
      with a Cons have
        "(case skip_ws r of [] \<Rightarrow> Inl SyntaxError
            | d # r' \<Rightarrow>
               if d = CHR '']'' then Inr (PList [], r')
               else bind_err (parse_elems py n r) (\<lambda>(vs, r''). Inr (PList vs, r''))) = Inl e"
        by (simp add: parse_simps)
      then show ?thesis
        using ih(2)
        by (cases "skip_ws r") (auto simp add: bind_err_Inl_iff split: if_splits)
    next
      case dict
      with a Cons have
        "(case skip_ws r of [] \<Rightarrow> Inl SyntaxError
            | d # r' \<Rightarrow>
               if d = CHR ''}'' then Inr (PDict [], r')
               else bind_err (parse_pairs py n r) (\<lambda>(kvs, r''). Inr (PDict kvs, r''))) = Inl e"
        by (simp add: parse_simps)
      then show ?thesis
        using ih(3)
        by (cases "skip_ws r") (auto simp add: bind_err_Inl_iff split: if_splits)
    next
      case atom
      with a Cons have "atom py (c # r) = Inl e" by (simp add: parse_simps)
      then show ?thesis by (rule atom_error)
    qed
  qed
  have el: "e = SyntaxError \<or> e = Unmodelled" if a: "parse_elems py (Suc n) s = Inl e"
  proof (cases "parse_value py n s")
    case (Inl e')
    with a have "e' = e" by (simp add: parse_simps)
    with Inl ih(1) show ?thesis by blast
  next
    case (Inr vr)
    obtain v r where vr: "vr = (v, r)" by (cases vr)
    from a Inr vr have
      "(case skip_ws r of [] \<Rightarrow> Inl SyntaxError
       | c # r' \<Rightarrow>
          if c = CHR '','' then bind_err (parse_elems py n r') (\<lambda>(vs, r''). Inr (v # vs, r''))
          else if c = CHR '']'' then Inr ([v], r')
          else Inl Unmodelled) = Inl e"
      by (simp add: parse_simps)
    then show ?thesis
      using ih(2)
      by (cases "skip_ws r") (auto simp add: bind_err_Inl_iff split: if_splits)
  qed
  have pr: "e = SyntaxError \<or> e = Unmodelled" if a: "parse_pairs py (Suc n) s = Inl e"
  proof (cases "parse_value py n s")
    case (Inl e')
    with a have "e' = e" by (simp add: parse_simps)
    with Inl ih(1) show ?thesis by blast
  next
    case (Inr kr)
    obtain k r where kr: "kr = (k, r)" by (cases kr)
    show ?thesis
    proof (cases "skip_ws r")
      case Nil
      with a Inr kr show ?thesis by (simp add: parse_simps)
    next
      case (Cons c r')
      show ?thesis
      proof (cases "c = CHR '':''")
        case False
        with a Inr kr Cons show ?thesis by (simp add: parse_simps)
      next
        case True
        show ?thesis
        proof (cases "parse_value py n r'")
          case (Inl e')
          with a \<open>parse_value py n s = Inr kr\<close> kr Cons True have "e' = e"
            by (simp add: parse_simps)
          with Inl ih(1) show ?thesis by blast
        next
          case (Inr vr)
          obtain v r2 where vr: "vr = (v, r2)" by (cases vr)
          from a \<open>parse_value py n s = Inr kr\<close> kr Cons True Inr vr have
            "(case skip_ws r2 of [] \<Rightarrow> Inl SyntaxError
            | d # r3 \<Rightarrow>
               if d = CHR '','' then bind_err (parse_pairs py n r3) (\<lambda>(kvs, r4). Inr ((k, v) # kvs, r4))
               else if d = CHR ''}'' then Inr ([(k, v)], r3)
               else Inl Unmodelled) = Inl e"
            by (simp add: parse_simps)
          then show ?thesis
            using ih(3)
            by (cases "skip_ws r2") (auto simp add: bind_err_Inl_iff split: if_splits)
        qed
      qed
    qed
  qed
  from v el pr show ?case by blast
qed

subsection \<open>Table values and subscripts\<close>

lemma inj_PList_map: "inj f \<Longrightarrow> inj (\<lambda>xs. PList (map f xs))"
  by (auto simp add: inj_def dest: map_injective [rotated])

lemma entry_val_inj: "entry_val e = entry_val e' \<Longrightarrow> e = e'"
proof -
  assume eq: "entry_val e = entry_val e'"
  have i1: "inj (\<lambda>g. PList (map (\<lambda>r. PList (map PBool r)) g) :: 'a pyval)"
    by (intro inj_PList_map) (simp add: inj_def)
  have i2: "inj (\<lambda>p. PList (map PFloat p) :: 'a pyval)"
    by (intro inj_PList_map) (simp add: inj_def)
  from eq have "map (\<lambda>g. PList (map (\<lambda>r. PList (map PBool r)) g) :: 'a pyval) (entry_mask e)
              = map (\<lambda>g. PList (map (\<lambda>r. PList (map PBool r)) g)) (entry_mask e')"
    and "map (\<lambda>p. PList (map PFloat p) :: 'a pyval) (entry_polygon e)
              = map (\<lambda>p. PList (map PFloat p)) (entry_polygon e')"
    by (simp_all add: entry_val_def)
  then have "entry_mask e = entry_mask e'" "entry_polygon e = entry_polygon e'"
    using i1 i2 by (auto dest: map_injective)
  then show ?thesis by simp
qed

lemma table_val_inj: "table_val t' = table_val t \<Longrightarrow> t' = t"
proof -
  assume "table_val t' = table_val t"
  then have "map (\<lambda>(k, e). (PInt (int k) :: 'a pyval, entry_val e)) t'
           = map (\<lambda>(k, e). (PInt (int k), entry_val e)) t"
    by (simp add: table_val_def)
  moreover have "inj (\<lambda>(k, e). (PInt (int k) :: 'a pyval, entry_val (e :: 'a entry)))"
    by (auto simp add: inj_def dest: entry_val_inj)
  ultimately show ?thesis by (rule map_injective)
qed

lemma key_eq_PInt [simp]: "key_eq (PInt a) (PInt b) = (a = b)"
  by (simp add: key_eq_def num_of_def)

lemma key_eq_PStr [simp]: "key_eq (PStr a) (PStr b) = (a = b)"
  by (simp add: key_eq_def num_of_def)

lemma getitem_table_val:
  fixes t :: "'f mask_table"
  shows "getitem (table_val t) (PInt i) =
     (case filter (\<lambda>(k, e). int k = i) t of
        [] \<Rightarrow> Inl KeyError
      | p # ps \<Rightarrow> Inr (entry_val (snd (last (p # ps)))))"
proof -
  let ?F = "\<lambda>(k, e). (PInt (int k) :: 'f pyval, entry_val (e :: 'f entry))"
  have f: "filter (\<lambda>(k', _). key_eq k' (PInt i)) (map ?F t) = map ?F (filter (\<lambda>(k, e). int k = i) t)"
    by (induction t) auto
  have "getitem (table_val t) (PInt i) =
      (case map ?F (filter (\<lambda>(k, e). int k = i) t) of
         [] \<Rightarrow> Inl KeyError | p # ps \<Rightarrow> Inr (snd (last (p # ps))))"
    unfolding getitem_def table_val_def pyval.case f ..
  also have "\<dots> = (case filter (\<lambda>(k, e). int k = i) t of
        [] \<Rightarrow> Inl KeyError
      | p # ps \<Rightarrow> Inr (entry_val (snd (last (p # ps)))))"
  proof (cases "filter (\<lambda>(k, e). int k = i) t")
    case Nil
    then show ?thesis by simp
  next
    case (Cons p ps)
    have "snd (last (map ?F (p # ps))) = entry_val (snd (last (p # ps)))"
      by (subst last_map) (simp_all add: case_prod_unfold)
    with Cons show ?thesis by simp
  qed
  finally show ?thesis .
qed

lemma getitem_first: "getitem (PList (v # vs)) (PInt 0) = Inr v"
  by (simp add: getitem_def)

lemma getitem_entry_mask:
  "getitem (entry_val e) (PStr ''mask'')
     = Inr (PList (map (\<lambda>g. PList (map (\<lambda>r. PList (map PBool r)) g)) (entry_mask e)))"
  by (simp add: getitem_def entry_val_def)


lemma np_array_grid:
  assumes "g \<noteq> []" "hd g \<noteq> []" "list_all (\<lambda>r. length r = length (hd g)) g"
  shows "np_array (PList (map (\<lambda>r. PList (map PBool r)) g) :: 'f pyval) = Inr g"
proof -
  let ?row = "\<lambda>r. PList (map PBool r) :: 'f pyval"
  have 1: "map bool_row (map ?row g) = g"
    by (induction g) (simp_all add: comp_def)
  have 2: "list_all is_bool_row (map ?row g)"
    by (induction g) (simp_all add: list_all_iff)
  from assms 1 2 show ?thesis
    by (simp add: np_array_def Let_def)
qed

lemma selected_mask_str_table:
  assumes "floats_ok py t" "py_int idx = Inr (int k)"
    "filter (\<lambda>(k', e). k' = k) t = [(k, e)]" "entry_mask e = g # gs"
    "g \<noteq> []" "hd g \<noteq> []" "list_all (\<lambda>r. length r = length (hd g)) g"
  shows "selected_mask py (str_table py t) idx = Inr g"
proof -
  have "filter (\<lambda>(k', e). int k' = int k) t = [(k, e)]"
    using assms(3) by simp
  then have "getitem (table_val t) (PInt (int k)) = Inr (entry_val e)"
    by (simp add: getitem_table_val)
  then show ?thesis
    using assms
    by (simp add: selected_mask_def py_eval_str_table getitem_entry_mask getitem_first np_array_grid)
qed

subsection \<open>The loop of Stage A\<close>

lemma dict_set_fresh: "k \<notin> fst ` set kvs \<Longrightarrow> dict_set kvs k v = kvs @ [(k, v)]"
  by (induction kvs) auto

lemma reshape2_Inr: "reshape2 p = Inr pts \<Longrightarrow> pts = pairs p"
  by (simp add: reshape2_def split: if_splits)

lemma upt_zip_Cons:
  "zip [idx..<idx + length (x # xs)] (x # xs) = (idx, x) # zip [Suc idx..<Suc idx + length xs] xs"
  by (simp add: upt_conv_Cons del: upt_Suc)

lemma loop_Cons:
  "loop_lines idx ((m, t, p, b) # items) = (str_nat idx @ '':'' @ t @ [CHR 0x0A]) @ loop_lines (Suc idx) items"
  "loop_entries idx ((m, t, p, b) # items) =
     (idx, \<lparr>entry_mask = m, entry_polygon = pairs p @ take 1 (pairs p)\<rparr>) # loop_entries (Suc idx) items"
  "loop_draws env idx ((m, t, p, b) # items) =
     [ShowMask m (np_random env idx), Plot (pairs p @ take 1 (pairs p)),
      Text (fst b) (fst (snd b)) (''idx:'' @ str_nat idx @ '', '' @ t)] @ loop_draws env (Suc idx) items"
  unfolding loop_lines_def loop_entries_def loop_draws_def upt_zip_Cons by simp_all

lemma loop_Nil [simp]:
  "loop_lines idx [] = []" "loop_entries idx [] = []" "loop_draws env idx [] = []"
  by (simp_all add: loop_lines_def loop_entries_def loop_draws_def)

lemma draw_results_Inr:
  assumes "draw_results env idx items (draws, s, outs) = Inr (draws', s', outs')"
    "\<forall>k\<in>fst ` set outs. k < idx"
  shows "draws' = draws @ loop_draws env idx items \<and> s' = s @ loop_lines idx items \<and>
         outs' = outs @ loop_entries idx items"
  using assms
proof (induction items arbitrary: idx draws s outs)
  case Nil
  then show ?case by simp
next
  case (Cons item items)
  obtain m t p b where item: "item = (m, t, p, b)" by (cases item) auto
  from Cons.prems(1) obtain pts where pts: "reshape2 p = Inr pts"
    by (auto simp add: item bind_err_Inr_iff)
  then have pp: "pts = pairs p" by (rule reshape2_Inr)
  let ?e = "\<lparr>entry_mask = m, entry_polygon = pairs p @ take 1 (pairs p)\<rparr>"
  from Cons.prems(2) have fresh: "idx \<notin> fst ` set outs" by auto
  from Cons.prems(1) have step:
    "draw_results env (Suc idx) items
       (draws @ [ShowMask m (np_random env idx), Plot (pairs p @ take 1 (pairs p)),
                 Text (fst b) (fst (snd b)) (''idx:'' @ str_nat idx @ '', '' @ t)],
        s @ str_nat idx @ '':'' @ t @ [CHR 0x0A],
        outs @ [(idx, ?e)]) = Inr (draws', s', outs')"
    by (simp add: item pts pp Let_def dict_set_fresh [OF fresh])
  have "\<forall>k\<in>fst ` set (outs @ [(idx, ?e)]). k < Suc idx"
    using Cons.prems(2) by auto
  from Cons.IH [OF step this] show ?case
    by (simp add: item loop_Cons)
qed

lemma run_mmocr_sam_Inr:
  assumes "run_mmocr_sam env img = Inr (preview, output_str, outputs)"
  obtains result det_bboxes masks rgb where
    "mmocr_inferencer env img = Inr result"
    "map_err (poly2bbox env) (det_polygons result) = Inr det_bboxes"
    "sam_predictor env img det_bboxes = Inr masks"
    "cvtColor img = Inr rgb"
    "output_str = loop_lines 0 (zip masks (zip (rec_texts result) (zip (det_polygons result) det_bboxes)))"
    "outputs = loop_entries 0 (zip masks (zip (rec_texts result) (zip (det_polygons result) det_bboxes)))"
    "cvtColor \<lparr>height = snd (figure_size env), width = fst (figure_size env),
               pix = render env rgb (loop_draws env 0
                 (zip masks (zip (rec_texts result) (zip (det_polygons result) det_bboxes))))\<rparr> = Inr preview"
proof -
  from assms obtain result det_bboxes masks rgb draws where
    1: "mmocr_inferencer env img = Inr result" and
    2: "map_err (poly2bbox env) (det_polygons result) = Inr det_bboxes" and
    3: "sam_predictor env img det_bboxes = Inr masks" and
    4: "cvtColor img = Inr rgb" and
    5: "draw_results env 0 (zip masks (zip (rec_texts result) (zip (det_polygons result) det_bboxes)))
          ([], [], []) = Inr (draws, output_str, outputs)" and
    6: "cvtColor \<lparr>height = snd (figure_size env), width = fst (figure_size env),
                  pix = render env rgb draws\<rparr> = Inr preview"
    unfolding run_mmocr_sam_def bind_err_Inr_iff by (auto simp add: bind_err_Inr_iff)
  from draw_results_Inr [OF 5] have
    "draws = loop_draws env 0 (zip masks (zip (rec_texts result) (zip (det_polygons result) det_bboxes)))"
    "output_str = loop_lines 0 (zip masks (zip (rec_texts result) (zip (det_polygons result) det_bboxes)))"
    "outputs = loop_entries 0 (zip masks (zip (rec_texts result) (zip (det_polygons result) det_bboxes)))"
    by simp_all
  with 1 2 3 4 6 show thesis by (intro that) simp_all
qed

lemma zip_upt_map:
  "length xs = n \<Longrightarrow> map (\<lambda>(i, x). f i x) (zip [0..<n] xs) = map (\<lambda>i. f i (xs ! i)) [0..<n]"
  by (rule nth_equalityI) simp_all

lemma loop_lines_nth:
  "loop_lines 0 items =
     concat (map (\<lambda>i. str_nat i @ '':'' @ fst (snd (items ! i)) @ [CHR 0x0A]) [0..<length items])"
proof -
  have "map (\<lambda>(i, x). str_nat i @ '':'' @ fst (snd x) @ [CHR 0x0A]) (zip [0..<length items] items)
      = map (\<lambda>i. str_nat i @ '':'' @ fst (snd (items ! i)) @ [CHR 0x0A]) [0..<length items]"
    by (rule zip_upt_map) simp
  then show ?thesis by (simp add: loop_lines_def case_prod_unfold)
qed

lemma loop_entries_nth:
  "loop_entries 0 items =
     map (\<lambda>i. (i, \<lparr>entry_mask = fst (items ! i),
                       entry_polygon = pairs (fst (snd (snd (items ! i)))) @
                                       take 1 (pairs (fst (snd (snd (items ! i)))))\<rparr>))
       [0..<length items]"
proof -
  have "map (\<lambda>(i, x). (i, \<lparr>entry_mask = fst x,
                       entry_polygon = pairs (fst (snd (snd x))) @ take 1 (pairs (fst (snd (snd x))))\<rparr>))
          (zip [0..<length items] items)
      = map (\<lambda>i. (i, \<lparr>entry_mask = fst (items ! i),
                       entry_polygon = pairs (fst (snd (snd (items ! i)))) @
                                       take 1 (pairs (fst (snd (snd (items ! i)))))\<rparr>))
          [0..<length items]"
    by (rule zip_upt_map) simp
  then show ?thesis by (simp add: loop_entries_def case_prod_unfold)
qed


lemma stage_a_items:
  assumes "map_err f polys = Inr det_bboxes" "length masks = length polys"
    "length texts = length polys"
  shows "length (zip masks (zip texts (zip polys det_bboxes))) = length polys"
    "\<And>i. i < length polys \<Longrightarrow>
       zip masks (zip texts (zip polys det_bboxes)) ! i = (masks ! i, texts ! i, polys ! i, det_bboxes ! i)"
  using assms map_err_Inr [OF assms(1)] by simp_all

subsection \<open>The composite of Stage B\<close>

lemma composite_pixel:
  assumes "composite env img g pr = Inr out"
  shows "\<exists>patch. masked_diff_result env g pr (width img, height img) = Inr patch \<and>
           height out = height img \<and> width out = width img \<and>
           (\<forall>y x c. c < 3 \<longrightarrow> pix out y x c = pix img y x c + pix patch y x (2 - c))"
proof -
  from assms obtain rgb patch where
    rgb: "cvtColor img = Inr rgb" and
    patch: "masked_diff_result env g pr (width rgb, height rgb) = Inr patch" and
    out: "cvtColor (np_add rgb patch) = Inr out"
    unfolding composite_def bind_err_Inr_iff by blast
  from rgb have rgb_eq: "rgb = img\<lparr>pix := \<lambda>y x c. pix img y x (2 - c)\<rparr>"
    by (simp add: cvtColor_def split: if_splits)
  from out have out_eq: "out = (np_add rgb patch)\<lparr>pix := \<lambda>y x c. pix (np_add rgb patch) y x (2 - c)\<rparr>"
    by (simp add: cvtColor_def split: if_splits)
  have px: "pix out y x c = pix img y x c + pix patch y x (2 - c)" if "c < 3" for y x c
  proof -
    from that have "2 - (2 - c) = c" by arith
    then show ?thesis by (simp add: out_eq rgb_eq np_add_def)
  qed
  from patch have "masked_diff_result env g pr (width img, height img) = Inr patch"
    by (simp add: rgb_eq)
  moreover have "height out = height img" "width out = width img"
    by (simp_all add: out_eq rgb_eq np_add_def)
  ultimately show ?thesis using px by blast
qed

lemma run_downstream_size:
  assumes "run_downstream py env img txt idx pr = Inr out"
  shows "height out = height img" "width out = width img"
proof -
  from assms obtain g where "composite env img g pr = Inr out"
    unfolding run_downstream_def bind_err_Inr_iff by blast
  from composite_pixel [OF this] show "height out = height img" "width out = width img"
    by blast+
qed

lemma outside_mask_unchanged_512:
  assumes run: "run_downstream py env img txt idx pr = Inr out"
    and g: "selected_mask py txt idx = Inr g"
    and shape: "length g = 512" "length (hd g) = 512" "height img = 512" "width img = 512"
    and px: "y < 512" "x < length (g ! y)" "\<not> g ! y ! x" "c < 3"
  shows "pix out y x c = pix img y x c"
proof -
  from run g have c: "composite env img g pr = Inr out"
    by (simp add: run_downstream_def)
  from composite_pixel [OF c] obtain patch where
    p: "masked_diff_result env g pr (width img, height img) = Inr patch"
    and o: "\<And>y x c. c < 3 \<Longrightarrow> pix out y x c = pix img y x c + pix patch y x (2 - c)"
    by blast
  have m: "resize (resample env) (mask_image g) (512, 512) = mask_image g"
    using shape by (simp add: resize_def mask_image_def)
  from p have "bind_err (pipe env pr 20 0 (mask_image g)) (\<lambda>diff.
           Inr (resize (resample env)
                  (np_mul \<lparr>height = 512, width = 512, pix = diff\<rparr> (mask_image g)) (512, 512)))
        = Inr patch"
    unfolding masked_diff_result_def Let_def m shape(3,4) .
  then obtain diff where
    "resize (resample env) (np_mul \<lparr>height = 512, width = 512, pix = diff\<rparr> (mask_image g)) (512, 512)
       = patch"
    unfolding bind_err_Inr_iff by auto
  then have "patch = np_mul \<lparr>height = 512, width = 512, pix = diff\<rparr> (mask_image g)"
    by (simp add: resize_def np_mul_def)
  then have "pix patch y x (2 - c) = 0"
    using px by (simp add: np_mul_def mask_image_def)
  with o [OF px(4)] show ?thesis by simp
qed




subsection \<open>Evaluations at the concrete inputs\<close>


lemma one_pixel_mask: "selected_mask whole_floats one_pixel_table ''0'' = Inr [[True]]"
  by code_simp

lemma paint_patch:
  "masked_diff_result (paint v) [[True]] pr (1, 1) = Inr patch \<Longrightarrow> pix patch 0 0 c = v"
  by (auto simp add: masked_diff_result_def paint_def resize_def mask_image_def np_mul_def
      nearest_def Let_def)

lemma py_int_0: "py_int ''0'' = Inr (int 0)"
  by code_simp






lemma stripe_facts: "length stripe = 513" "stripe ! 257" "\<not> stripe ! 256"
  by (simp_all add: stripe_def nth_append)

lemma stripe_mask:
  "selected_mask whole_floats (str_table whole_floats stripe_table) ''0'' = Inr [stripe]"
  using stripe_facts(1)
  by (intro selected_mask_str_table [where k = 0 and gs = "[]"
        and e = "\<lparr>entry_mask = [[stripe]], entry_polygon = []\<rparr>"])
     (auto simp add: whole_floats_table py_int_0 stripe_table_def)

lemma hello_run:
  "run_mmocr_sam hello_env (flat 2 4 v) =
     Inr (\<lparr>height = 480, width = 640, pix = (\<lambda>y x c. 255)\<rparr>, ''0:HELLO'' @ [CHR 0x0A], hello_table)"
  by (simp add: run_mmocr_sam_def hello_env_def spot_env_def box_of_def box_mask_def flat_def
      cvtColor_def reshape2_def str_nat_0 hello_table_def Let_def upt_conv_Cons)

lemma hello_mask:
  "selected_mask whole_floats (str_table whole_floats hello_table) ''0''
     = Inr [[False, True, True, False], [False, True, True, False]]"
  by (intro selected_mask_str_table [where k = 0 and gs = "[]"
        and e = "\<lparr>entry_mask = [[[False, True, True, False], [False, True, True, False]]],
           entry_polygon = [[1, 0], [2, 0], [2, 1], [1, 1], [1, 0]]\<rparr>"])
     (auto simp add: whole_floats_table py_int_0 hello_table_def)




section \<open>The claims\<close>

text \<open>
  C1. Every pixel of the composite outside the selected mask is the pixel of the
  input image. The program masks the generator's output at 512 by 512 and resizes the
  product afterwards, so on an input of another size the resampling carries generated
  content across the edge of the mask. Evaluated here: a black image 513 wide and 1
  high, the table whose mask holds pixel 257 alone, a generator that paints white and
  nearest-neighbour resampling. Pixel 256 lies outside the mask and comes out white.
  (On an input of 512 by 512 nothing is resampled and the property holds:
  \<open>outside_mask_unchanged_512\<close>.)
\<close>

theorem generated_content_outside_mask:
  "selected_mask whole_floats (str_table whole_floats stripe_table) ''0'' = Inr [stripe] \<and>
   \<not> stripe ! 256 \<and>
   (case run_downstream whole_floats (paint 255) (flat 1 513 0)
           (str_table whole_floats stripe_table) ''0'' ''graffiti'' of
      Inl e \<Rightarrow> False
    | Inr out \<Rightarrow> pix (flat 1 513 0) 0 256 0 = 0 \<and> pix out 0 256 0 = 255)"
  using stripe_facts
  by (simp add: stripe_mask run_downstream_def composite_def cvtColor_def flat_def
      masked_diff_result_def paint_def resize_def mask_image_def np_mul_def np_add_def
      nearest_def Let_def)







text \<open>
  C4. Writing a mask table with \<^verbatim>\<open>str\<close> and reading the text with \<^verbatim>\<open>eval\<close>
  gives back the table: the value read is the value of the table written, and no other
  table has that value, so masks and polygons come back exactly. The floats are those
  that the interpreter prints as a literal it reads back (\<open>floats_ok\<close>).
\<close>

theorem mask_table_round_trip:
  assumes "floats_ok py t"
  shows "py_eval py (str_table py t) = Inr (table_val t) \<and>
         (\<forall>t'. table_val t' = table_val t \<longrightarrow> t' = t)"
  using assms by (auto simp add: py_eval_str_table dest: table_val_inj)

theorem mask_table_round_trip_witness:
  "floats_ok whole_floats hello_table \<and>
   py_eval whole_floats (str_table whole_floats hello_table) = Inr (table_val hello_table)"
  using mask_table_round_trip [OF whole_floats_table, of hello_table]
  by (simp add: whole_floats_table)









text \<open>
  C8. Stage B composites onto the original image, never onto the preview, and its
  result has the original image's size: the button of Stage A writes the preview to the
  output component and leaves the input component alone, and the button of Stage B
  reads the input component.
\<close>

theorem stage_b_uses_the_original:
  assumes "mmocr_sam_click py ea s = Inr s1" "downstream_click py eb s1 = Inr s2"
  shows "input_image s1 = input_image s \<and>
         (\<exists>out. output_image s2 = Some out \<and>
            run_downstream py eb (input_image s) (mask_results s1) (text_index s) (prompt s) = Inr out \<and>
            height out = height (input_image s) \<and> width out = width (input_image s))"
proof -
  from assms(1) have s1: "input_image s1 = input_image s" "text_index s1 = text_index s"
    "prompt s1 = prompt s"
    by (auto simp add: mmocr_sam_click_def bind_err_Inr_iff)
  from assms(2) obtain out where
    run: "run_downstream py eb (input_image s1) (mask_results s1) (text_index s1) (prompt s1) = Inr out"
    and s2: "s2 = s1\<lparr>output_image := Some out\<rparr>"
    by (auto simp add: downstream_click_def bind_err_Inr_iff)
  from run_downstream_size [OF run]
  have "height out = height (input_image s1)" "width out = width (input_image s1)" by simp_all
  with run s1 s2 show ?thesis by simp
qed

theorem stage_b_uses_the_original_witness:
  "case mmocr_sam_click whole_floats hello_env ui0 of
     Inl e \<Rightarrow> False
   | Inr s1 \<Rightarrow>
       (case downstream_click whole_floats (paint 100) s1 of
          Inl e \<Rightarrow> False
        | Inr s2 \<Rightarrow>
            input_image s1 = flat 2 4 9 \<and>
            (case output_image s2 of None \<Rightarrow> False
             | Some out \<Rightarrow> height out = 2 \<and> width out = 4))"
proof -
  obtain s1 where s1: "mmocr_sam_click whole_floats hello_env ui0 = Inr s1"
    and m1: "mask_results s1 = str_table whole_floats hello_table"
    and i1: "input_image s1 = flat 2 4 9" "text_index s1 = ''0''" "prompt s1 = ''graffiti''"
    by (simp add: mmocr_sam_click_def ui0_def hello_run)
  obtain s2 where s2: "downstream_click whole_floats (paint 100) s1 = Inr s2"
    by (simp add: downstream_click_def run_downstream_def m1 i1 hello_mask composite_def
        cvtColor_def flat_def masked_diff_result_def paint_def np_add_def Let_def)
  from stage_b_uses_the_original [OF s1 s2]
  obtain out where "output_image s2 = Some out" "height out = height (input_image ui0)"
    "width out = width (input_image ui0)" by blast
  with s1 s2 i1 show ?thesis by (simp add: ui0_def flat_def)
qed

text \<open>
  C9. With \<open>n\<close> detected regions (and the collaborators' contracts as in C7), the
  keys of the table are \<open>0, ..., n - 1\<close> in that order and the summary is the
  concatenation of the lines \<^verbatim>\<open>i:text\<close>, each ended by a newline; for the single
  region \<^verbatim>\<open>HELLO\<close> it is \<^verbatim>\<open>0:HELLO\<close> and a newline.
\<close>

theorem stage_a_keys_and_summary:
  assumes "run_mmocr_sam env img = Inr (preview, output_str, outputs)"
    and "mmocr_inferencer env img = Inr result"
    and "map_err (poly2bbox env) (det_polygons result) = Inr det_bboxes"
    and "sam_predictor env img det_bboxes = Inr masks"
    and "length masks = length (det_polygons result)"
    and "length (rec_texts result) = length (det_polygons result)"
  shows "map fst outputs = [0..<length (det_polygons result)] \<and>
         output_str = concat (map (\<lambda>i. str_nat i @ '':'' @ rec_texts result ! i @ [CHR 0x0A])
                                  [0..<length (det_polygons result)])"
proof -
  let ?n = "length (det_polygons result)"
  define items where "items = zip masks (zip (rec_texts result) (zip (det_polygons result) det_bboxes))"
  note it = stage_a_items [OF assms(3,5,6), folded items_def]
  from assms(1) obtain result' det_bboxes' masks' where
    "mmocr_inferencer env img = Inr result'"
    "map_err (poly2bbox env) (det_polygons result') = Inr det_bboxes'"
    "sam_predictor env img det_bboxes' = Inr masks'"
    "output_str = loop_lines 0 (zip masks' (zip (rec_texts result') (zip (det_polygons result') det_bboxes')))"
    "outputs = loop_entries 0 (zip masks' (zip (rec_texts result') (zip (det_polygons result') det_bboxes')))"
    by (rule run_mmocr_sam_Inr)
  with assms(2,3,4) have s: "output_str = loop_lines 0 items" and t: "outputs = loop_entries 0 items"
    by (simp_all add: items_def)
  have keys: "map fst outputs = [0..<?n]"
    unfolding t loop_entries_nth it(1) by (simp add: comp_def)
  have eq: "map (\<lambda>i. str_nat i @ '':'' @ fst (snd (items ! i)) @ [CHR 0x0A]) [0..<?n]
      = map (\<lambda>i. str_nat i @ '':'' @ rec_texts result ! i @ [CHR 0x0A]) [0..<?n]"
    by (rule map_cong) (simp_all add: it(2))
  have "output_str = concat (map (\<lambda>i. str_nat i @ '':'' @ fst (snd (items ! i)) @ [CHR 0x0A]) [0..<?n])"
    unfolding s loop_lines_nth it(1) ..
  then have "output_str = concat (map (\<lambda>i. str_nat i @ '':'' @ rec_texts result ! i @ [CHR 0x0A]) [0..<?n])"
    by (simp only: eq)
  with keys show ?thesis by (rule conjI)
qed

theorem stage_a_keys_and_summary_witness:
  "case run_mmocr_sam hello_env (flat 2 4 0) of
     Inl e \<Rightarrow> False
   | Inr (preview, output_str, outputs) \<Rightarrow>
       map fst outputs = [0] \<and> output_str = ''0:HELLO'' @ [CHR 0x0A]"
proof -
  let ?r = "\<lparr>rec_texts = [''HELLO''], det_polygons = [[1, 0, 2, 0, 2, 1, 1, 1 :: nat]]\<rparr>"
  have "map fst hello_table = [0..<length (det_polygons ?r)] \<and>
        ''0:HELLO'' @ [CHR 0x0A] = concat (map (\<lambda>i. str_nat i @ '':'' @ rec_texts ?r ! i @ [CHR 0x0A])
                                  [0..<length (det_polygons ?r)])"
    by (rule stage_a_keys_and_summary [OF hello_run [of 0], of ?r "[(1, 0, 2, 1)]"
          "[box_mask (flat 2 4 0) (1, 0, 2, 1)]"])
       (simp_all add: hello_env_def spot_env_def box_of_def Let_def)
  then show ?thesis by (simp add: hello_run)
qed

text \<open>
  C10. Stage B forms the composite by element-wise unsigned 8-bit addition of the
  original image and the masked, resized generator output: whenever
  \<^verbatim>\<open>run_downstream\<close> returns, the result has the size of the input and every channel
  of every pixel is the sum modulo 256 of the input's value and the patch's value (the
  patch is in RGB order, the input and the result in BGR order, hence \<open>2 - c\<close>). So
  a sum above 255 wraps around, and where the patch is 0 the pixel is the original one.
\<close>

theorem composite_is_uint8_sum:
  assumes "run_downstream py env img txt idx pr = Inr out"
  shows "\<exists>g patch. selected_mask py txt idx = Inr g \<and>
           masked_diff_result env g pr (width img, height img) = Inr patch \<and>
           height out = height img \<and> width out = width img \<and>
           (\<forall>y x c. c < 3 \<longrightarrow>
              unat (pix out y x c) = (unat (pix img y x c) + unat (pix patch y x (2 - c))) mod 256 \<and>
              (pix patch y x (2 - c) = 0 \<longrightarrow> pix out y x c = pix img y x c))"
proof -
  from assms obtain g where g: "selected_mask py txt idx = Inr g"
    and c: "composite env img g pr = Inr out"
    unfolding run_downstream_def bind_err_Inr_iff by blast
  from c obtain patch where
    p: "masked_diff_result env g pr (width img, height img) = Inr patch"
    and sz: "height out = height img" "width out = width img"
    and px: "\<And>y x c. c < 3 \<Longrightarrow> pix out y x c = pix img y x c + pix patch y x (2 - c)"
    using composite_pixel [OF c] by blast
  have "unat (pix out y x c) = (unat (pix img y x c) + unat (pix patch y x (2 - c))) mod 256 \<and>
        (pix patch y x (2 - c) = 0 \<longrightarrow> pix out y x c = pix img y x c)" if "c < 3" for y x c
    using px [OF that] by (simp add: unat_word_ariths)
  with g p sz show ?thesis by blast
qed

theorem composite_is_uint8_sum_witness:
  "case run_downstream whole_floats (paint 100) (flat 1 1 200) one_pixel_table ''0'' ''graffiti'' of
     Inl e \<Rightarrow> False
   | Inr out \<Rightarrow> unat (pix out 0 0 0) = 44 \<and> height out = 1 \<and> width out = 1"
proof -
  have "\<exists>out. run_downstream whole_floats (paint 100) (flat 1 1 200) one_pixel_table ''0'' ''graffiti'' = Inr out"
    by (simp add: run_downstream_def one_pixel_mask composite_def cvtColor_def flat_def
        masked_diff_result_def paint_def np_add_def Let_def)
  then obtain out where
    run: "run_downstream whole_floats (paint 100) (flat 1 1 200) one_pixel_table ''0'' ''graffiti'' = Inr out"
    by blast
  from composite_is_uint8_sum [OF run] obtain g patch where
    g: "selected_mask whole_floats one_pixel_table ''0'' = Inr g" and
    p: "masked_diff_result (paint 100) g ''graffiti'' (width (flat 1 1 200), height (flat 1 1 200)) = Inr patch" and
    sz: "height out = height (flat 1 1 200)" "width out = width (flat 1 1 200)" and
    px: "\<forall>y x c. c < 3 \<longrightarrow>
           unat (pix out y x c) = (unat (pix (flat 1 1 200) y x c) + unat (pix patch y x (2 - c))) mod 256 \<and>
           (pix patch y x (2 - c) = 0 \<longrightarrow> pix out y x c = pix (flat 1 1 200) y x c)"
    by blast
  from g have "g = [[True]]" by (simp add: one_pixel_mask)
  with p have "pix patch 0 0 2 = 100" by (simp add: flat_def paint_patch)
  with px [rule_format, of 0 0 0] sz run show ?thesis
    by (simp add: flat_def)
qed

end
